theory Spec2Isabelle
  imports Main "HOL-Library.Word"
begin

section \<open>Bytes, runes and errors\<close>

text \<open>
  The program is \<^verbatim>\<open>homework/cmd/main.go\<close>: a \<^verbatim>\<open>dd\<close>-like filter that skips an offset,
  reads blocks up to a limit, converts each block and writes it.  A Go \<^verbatim>\<open>[]byte\<close> is a
  list of 8-bit words, a \<^verbatim>\<open>uint64\<close> is a 64-bit word, a \<^verbatim>\<open>rune\<close> (\<^verbatim>\<open>int32\<close>) is an
  integer, an \<^verbatim>\<open>error\<close> is a value of the datatype below (\<^verbatim>\<open>nil\<close> is \<open>None\<close>).
\<close>

type_synonym byte = "8 word"
type_synonym rune = int
type_synonym uint64 = "64 word"

datatype error =
    EOF                       \<comment> \<open>the sentinel \<^verbatim>\<open>io.EOF\<close>\<close>
  | IOError string            \<comment> \<open>any other error of a reader or a writer\<close>
  | ErrMsg string             \<comment> \<open>\<^verbatim>\<open>fmt.Errorf\<close> without \<^verbatim>\<open>%w\<close>\<close>
  | Errorf string error       \<comment> \<open>\<^verbatim>\<open>fmt.Errorf("...: %w", err)\<close>\<close>

section \<open>The standard library, as far as the program calls it\<close>

subsection \<open>Package \<^verbatim>\<open>unicode/utf8\<close>\<close>

definition RuneError :: rune where
  "RuneError = 0xFFFD"

text \<open>
  The table \<^verbatim>\<open>first\<close> of the package gives, for a leading byte, the length of its
  sequence (0 stands for the invalid entry \<^verbatim>\<open>xx\<close>, 1 for ASCII) and
  \<^verbatim>\<open>acceptRanges\<close> the range of the second byte.
\<close>

definition seqLen :: "int \<Rightarrow> nat" where
  "seqLen x =
     (if x < 0x80 then 1
      else if 0xC2 \<le> x \<and> x \<le> 0xDF then 2
      else if 0xE0 \<le> x \<and> x \<le> 0xEF then 3
      else if 0xF0 \<le> x \<and> x \<le> 0xF4 then 4
      else 0)"

definition acceptLo :: "int \<Rightarrow> int" where
  "acceptLo x = (if x = 0xE0 then 0xA0 else if x = 0xF0 then 0x90 else 0x80)"

definition acceptHi :: "int \<Rightarrow> int" where
  "acceptHi x = (if x = 0xED then 0x9F else if x = 0xF4 then 0x8F else 0xBF)"

text \<open>
  \<^verbatim>\<open>utf8.DecodeRuneInString\<close>: the rune at the head of the bytes and its width.  The
  masks and shifts of the Go code are written as arithmetic (\<^verbatim>\<open>s0&mask2\<close> is
  \<open>x - 0xC0\<close> for a two-byte leader, \<^verbatim>\<open>s1&maskx\<close> is \<open>s1 - 0x80\<close> for a continuation
  byte, \<^verbatim>\<open><<6\<close> is \<open>* 64\<close>).
\<close>

fun DecodeRune :: "byte list \<Rightarrow> rune \<times> nat" where
  "DecodeRune [] = (RuneError, 0)"
| "DecodeRune (s0 # rest) =
     (let x = uint s0; sz = seqLen x in
      if sz = 1 then (x, 1)
      else if sz = 0 then (RuneError, 1)
      else if length (s0 # rest) < sz then (RuneError, 1)
      else
        let s1 = uint (rest ! 0) in
        if s1 < acceptLo x \<or> acceptHi x < s1 then (RuneError, 1)
        else if sz \<le> 2 then ((x - 0xC0) * 64 + (s1 - 0x80), 2)
        else
          let s2 = uint (rest ! 1) in
          if s2 < 0x80 \<or> 0xBF < s2 then (RuneError, 1)
          else if sz \<le> 3 then ((x - 0xE0) * 4096 + (s1 - 0x80) * 64 + (s2 - 0x80), 3)
          else
            let s3 = uint (rest ! 2) in
            if s3 < 0x80 \<or> 0xBF < s3 then (RuneError, 1)
            else ((x - 0xF0) * 262144 + (s1 - 0x80) * 4096 + (s2 - 0x80) * 64 + (s3 - 0x80), 4))"

text \<open>\<^verbatim>\<open>utf8.RuneStart\<close>: the byte is not a continuation byte.\<close>

definition RuneStart :: "byte \<Rightarrow> bool" where
  "RuneStart b = (\<not> (0x80 \<le> uint b \<and> uint b \<le> 0xBF))"

text \<open>
  The backward search of \<^verbatim>\<open>utf8.DecodeLastRuneInString\<close>: from \<open>start\<close> down to
  \<open>lim\<close>, stop at the first rune start; the result is \<open>lim - 1\<close> when there is none.
\<close>

function findStart :: "byte list \<Rightarrow> int \<Rightarrow> int \<Rightarrow> int" where
  "findStart s lim start =
     (if start < lim then start
      else if RuneStart (s ! nat start) then start
      else findStart s lim (start - 1))"
  by pat_completeness auto
termination
  by (relation "measure (\<lambda>(s, lim, start). nat (start - lim + 1))") auto

declare findStart.simps [simp del]

definition DecodeLastRune :: "byte list \<Rightarrow> rune \<times> nat" where
  "DecodeLastRune s =
     (let n = int (length s) in
      if n = 0 then (RuneError, 0)
      else if uint (s ! nat (n - 1)) < 0x80 then (uint (s ! nat (n - 1)), 1)
      else
        let lim = (if n - 4 < 0 then 0 else n - 4);
            start0 = findStart s lim (n - 2);
            start = (if start0 < 0 then 0 else start0)
        in case DecodeRune (drop (nat start) s) of (r, w) \<Rightarrow>
             if start + int w \<noteq> n then (RuneError, 1) else (r, w))"

text \<open>
  \<^verbatim>\<open>utf8.AppendRune\<close>, which \<^verbatim>\<open>strings.Builder.WriteRune\<close> calls: a rune that is
  negative, too large or a surrogate is written as \<^verbatim>\<open>RuneError\<close>.
\<close>

definition EncodeRune :: "rune \<Rightarrow> byte list" where
  "EncodeRune r =
     (if 0 \<le> r \<and> r \<le> 0x7F then [word_of_int r]
      else if 0 \<le> r \<and> r \<le> 0x7FF then
        [word_of_int (0xC0 + r div 64), word_of_int (0x80 + r mod 64)]
      else if r < 0 \<or> 0x10FFFF < r \<or> (0xD800 \<le> r \<and> r \<le> 0xDFFF) then [0xEF, 0xBF, 0xBD]
      else if r \<le> 0xFFFF then
        [word_of_int (0xE0 + r div 4096), word_of_int (0x80 + (r div 64) mod 64),
         word_of_int (0x80 + r mod 64)]
      else
        [word_of_int (0xF0 + r div 262144), word_of_int (0x80 + (r div 4096) mod 64),
         word_of_int (0x80 + (r div 64) mod 64), word_of_int (0x80 + r mod 64)])"

text \<open>
  The runes of \<^verbatim>\<open>for _, c := range s\<close>.  The width of the rune at the head of a
  non-empty string is at least 1, so the rest is \<open>drop (w - 1)\<close> of the tail.
\<close>

fun decodeAll :: "byte list \<Rightarrow> rune list" where
  "decodeAll [] = []"
| "decodeAll (b # bs) = (case DecodeRune (b # bs) of (r, w) \<Rightarrow> r # decodeAll (drop (w - 1) bs))"

subsection \<open>Package \<^verbatim>\<open>unicode\<close>\<close>

text \<open>
  \<^verbatim>\<open>unicode.IsSpace\<close>: the Latin-1 cases of the function and the ranges of the table
  \<^verbatim>\<open>White_Space\<close> above Latin-1.
\<close>

definition IsSpace :: "rune \<Rightarrow> bool" where
  "IsSpace r =
     (if 0 \<le> r \<and> r \<le> 0xFF then
        r = 0x09 \<or> r = 0x0A \<or> r = 0x0B \<or> r = 0x0C \<or> r = 0x0D \<or> r = 0x20 \<or> r = 0x85 \<or> r = 0xA0
      else
        r = 0x1680 \<or> (0x2000 \<le> r \<and> r \<le> 0x200A) \<or> r = 0x2028 \<or> r = 0x2029 \<or> r = 0x202F
        \<or> r = 0x205F \<or> r = 0x3000)"

text \<open>
  \<^verbatim>\<open>unicode.ToUpper\<close> and \<^verbatim>\<open>unicode.ToLower\<close>: ASCII is decided in the function,
  every other rune by the table \<^verbatim>\<open>CaseRanges\<close>.  The table is not part of the program;
  it is the parameter \<open>tbl\<close> (\<^verbatim>\<open>To(UpperCase, r)\<close> and \<^verbatim>\<open>To(LowerCase, r)\<close>).
\<close>

definition unicode_ToUpper :: "(rune \<Rightarrow> rune) \<Rightarrow> rune \<Rightarrow> rune" where
  "unicode_ToUpper tbl r =
     (if r \<le> 0x7F then (if 0x61 \<le> r \<and> r \<le> 0x7A then r - 0x20 else r) else tbl r)"

definition unicode_ToLower :: "(rune \<Rightarrow> rune) \<Rightarrow> rune \<Rightarrow> rune" where
  "unicode_ToLower tbl r =
     (if r \<le> 0x7F then (if 0x41 \<le> r \<and> r \<le> 0x5A then r + 0x20 else r) else tbl r)"

text \<open>The two tables of the program: upper case first, lower case second.\<close>

type_synonym caseTables = "(rune \<Rightarrow> rune) \<times> (rune \<Rightarrow> rune)"

subsection \<open>Package \<^verbatim>\<open>strings\<close>\<close>

text \<open>
  \<^verbatim>\<open>strings.Map\<close>: every rune of the string is mapped and written back in UTF-8; a
  negative result drops the rune.  An invalid byte is read as \<^verbatim>\<open>RuneError\<close>.
\<close>

definition strings_Map :: "(rune \<Rightarrow> rune) \<Rightarrow> byte list \<Rightarrow> byte list" where
  "strings_Map mapping s =
     concat (map (\<lambda>c. let r = mapping c in if 0 \<le> r then EncodeRune r else []) (decodeAll s))"

definition isLowerByte :: "byte \<Rightarrow> bool" where
  "isLowerByte c = (0x61 \<le> uint c \<and> uint c \<le> 0x7A)"

definition isUpperByte :: "byte \<Rightarrow> bool" where
  "isUpperByte c = (0x41 \<le> uint c \<and> uint c \<le> 0x5A)"

definition isASCII :: "byte list \<Rightarrow> bool" where
  "isASCII s = list_all (\<lambda>c. uint c < 0x80) s"

text \<open>\<^verbatim>\<open>strings.ToUpper\<close> and \<^verbatim>\<open>strings.ToLower\<close>, with their path for ASCII strings.\<close>

definition strings_ToUpper :: "(rune \<Rightarrow> rune) \<Rightarrow> byte list \<Rightarrow> byte list" where
  "strings_ToUpper tbl s =
     (if isASCII s then
        (if \<not> list_ex isLowerByte s then s
         else map (\<lambda>c. if isLowerByte c then c - 0x20 else c) s)
      else strings_Map (unicode_ToUpper tbl) s)"

definition strings_ToLower :: "(rune \<Rightarrow> rune) \<Rightarrow> byte list \<Rightarrow> byte list" where
  "strings_ToLower tbl s =
     (if isASCII s then
        (if \<not> list_ex isUpperByte s then s
         else map (\<lambda>c. if isUpperByte c then c + 0x20 else c) s)
      else strings_Map (unicode_ToLower tbl) s)"

text \<open>
  \<^verbatim>\<open>strings.TrimLeftFunc(s, unicode.IsSpace)\<close>: the string from its first rune that is
  not white space.
\<close>

fun TrimLeftFunc :: "byte list \<Rightarrow> byte list" where
  "TrimLeftFunc [] = []"
| "TrimLeftFunc (b # bs) =
     (case DecodeRune (b # bs) of (r, w) \<Rightarrow>
        if IsSpace r then TrimLeftFunc (drop (w - 1) bs) else b # bs)"

text \<open>
  \<^verbatim>\<open>strings.lastIndexFunc(s, unicode.IsSpace, false)\<close>: the index of the last rune that
  is not white space, reading backwards, or -1.  The argument is the prefix
  \<^verbatim>\<open>s[0:i]\<close> of the loop.
\<close>

function lastIndexFunc :: "byte list \<Rightarrow> int" where
  "lastIndexFunc s =
     (if s = [] then - 1
      else case DecodeLastRune s of (r, w) \<Rightarrow>
        if IsSpace r then lastIndexFunc (take (length s - w) s)
        else int (length s) - int w)"
  by pat_completeness auto
termination
proof (relation "measure length")
  show "wf (measure length)" by simp
next
  fix s :: "byte list" and r :: rune and w :: nat
  assume ne: "s \<noteq> []" and rw: "(r, w) = DecodeLastRune s" and sp: "IsSpace r"
  have nerr: "\<not> IsSpace RuneError"
    by (simp add: IsSpace_def RuneError_def)
  have dec: "snd (DecodeRune t) = 0 \<Longrightarrow> fst (DecodeRune t) = RuneError" for t
    by (cases t) (auto simp: Let_def split: if_splits)
  have "w \<noteq> 0"
  proof
    assume w0: "w = 0"
    from rw have "DecodeLastRune s = (r, 0)" by (simp add: w0)
    then have "r = RuneError"
      using ne dec [of "drop n s" for n]
      by (auto simp del: DecodeRune.simps simp add: DecodeRune.simps(1) DecodeLastRune_def Let_def
               split: if_splits prod.splits)
    with sp nerr show False by simp
  qed
  with ne show "(take (length s - w) s, s) \<in> measure length"
    by (cases s) auto
qed

declare lastIndexFunc.simps [simp del]

text \<open>
  \<^verbatim>\<open>strings.TrimRightFunc(s, unicode.IsSpace)\<close>: the string up to the end of that
  rune, whose width is read forwards when it is not ASCII.
\<close>

definition TrimRightFunc :: "byte list \<Rightarrow> byte list" where
  "TrimRightFunc s =
     (let i = lastIndexFunc s in
      if 0 \<le> i \<and> 0x80 \<le> uint (s ! nat i) then
        (case DecodeRune (drop (nat i) s) of (r, wid) \<Rightarrow> take (nat i + wid) s)
      else take (nat (i + 1)) s)"

definition TrimFunc :: "byte list \<Rightarrow> byte list" where
  "TrimFunc s = TrimRightFunc (TrimLeftFunc s)"

text \<open>The table \<^verbatim>\<open>asciiSpace\<close> of package \<^verbatim>\<open>strings\<close>.\<close>

definition asciiSpace :: "byte \<Rightarrow> bool" where
  "asciiSpace c = (c = 0x09 \<or> c = 0x0A \<or> c = 0x0B \<or> c = 0x0C \<or> c = 0x0D \<or> c = 0x20)"

text \<open>
  \<^verbatim>\<open>strings.TrimSpace\<close>.  Its first loop moves \<^verbatim>\<open>start\<close> over ASCII white space
  and its second loop moves \<^verbatim>\<open>stop\<close> back; either hands over to the functions above
  at the first byte that is not ASCII.  \<open>trimSpaceStop\<close> is the second loop on
  \<^verbatim>\<open>s[start:stop]\<close>.
\<close>

function trimSpaceStop :: "byte list \<Rightarrow> byte list" where
  "trimSpaceStop s =
     (if s = [] then []
      else if 0x80 \<le> uint (last s) then TrimRightFunc s
      else if \<not> asciiSpace (last s) then s
      else trimSpaceStop (butlast s))"
  by pat_completeness auto
termination
  by (relation "measure length") auto

declare trimSpaceStop.simps [simp del]

fun TrimSpace :: "byte list \<Rightarrow> byte list" where
  "TrimSpace [] = trimSpaceStop []"
| "TrimSpace (c # cs) =
     (if 0x80 \<le> uint c then TrimFunc (c # cs)
      else if \<not> asciiSpace c then trimSpaceStop (c # cs)
      else TrimSpace cs)"

subsection \<open>Package \<^verbatim>\<open>io\<close>\<close>

text \<open>
  An \<^verbatim>\<open>io.Reader\<close> is a state and its method: \<^verbatim>\<open>Read(p)\<close> with \<open>len(p) = k\<close> gives
  the bytes it stored in \<^verbatim>\<open>p[:n]\<close>, its error and the next state.  An \<^verbatim>\<open>io.Writer\<close>
  takes the bytes and gives its error and the next state.
\<close>

type_synonym 'r reader = "'r \<Rightarrow> nat \<Rightarrow> byte list \<times> error option \<times> 'r"
type_synonym 'w writer = "'w \<Rightarrow> byte list \<Rightarrow> error option \<times> 'w"

text \<open>\<^verbatim>\<open>(*io.LimitedReader).Read\<close>; the state is the pair of \<^verbatim>\<open>R\<close> and \<^verbatim>\<open>N\<close>.\<close>

definition LimitedReader_Read :: "'r reader \<Rightarrow> 'r \<times> int \<Rightarrow> nat \<Rightarrow> byte list \<times> error option \<times> ('r \<times> int)" where
  "LimitedReader_Read rd l p =
     (case l of (R, N) \<Rightarrow>
        if N \<le> 0 then ([], Some EOF, (R, N))
        else
          let p' = (if N < int p then nat N else p) in
          case rd R p' of (bs, err, R') \<Rightarrow> (bs, err, (R', N - int (length bs))))"

text \<open>
  \<^verbatim>\<open>io.discard.ReadFrom\<close>, which \<^verbatim>\<open>io.Copy\<close> calls for \<^verbatim>\<open>io.Discard\<close>: it reads
  blocks of 8192 bytes until an error, and \<^verbatim>\<open>io.EOF\<close> is not an error of the copy.
  The loop has no bound in Go; here it runs on fuel, and \<open>None\<close> is "out of fuel".
\<close>

fun discard_ReadFrom :: "nat \<Rightarrow> 'r reader \<Rightarrow> 'r \<times> int \<Rightarrow> int \<Rightarrow> (int \<times> error option \<times> ('r \<times> int)) option" where
  "discard_ReadFrom 0 rd l n = None"
| "discard_ReadFrom (Suc fuel) rd l n =
     (case LimitedReader_Read rd l 8192 of (bs, err, l') \<Rightarrow>
        let n' = n + int (length bs) in
        (case err of
           Some e \<Rightarrow> if e = EOF then Some (n', None, l') else Some (n', Some e, l')
         | None \<Rightarrow> discard_ReadFrom fuel rd l' n'))"

text \<open>\<^verbatim>\<open>io.CopyN(io.Discard, src, n)\<close>.\<close>

definition io_CopyN :: "nat \<Rightarrow> 'r reader \<Rightarrow> 'r \<Rightarrow> int \<Rightarrow> (int \<times> error option \<times> 'r) option" where
  "io_CopyN fuel rd s n =
     (case discard_ReadFrom fuel rd (s, n) 0 of
        None \<Rightarrow> None
      | Some (written, err, (s', N)) \<Rightarrow>
          if written = n then Some (n, None, s')
          else if written < n \<and> err = None then Some (written, Some EOF, s')
          else Some (written, err, s'))"

section \<open>The program\<close>

definition defaultBlockSize :: uint64 where
  "defaultBlockSize = 4096"

definition minSize :: uint64 where
  "minSize = 0"

record Options =
  From :: string
  To :: string
  Offset :: uint64
  Limit :: uint64
  BlockSize :: uint64
  Conv :: "string list"

text \<open>
  \<^verbatim>\<open>ProcessingContext\<close>; the field \<^verbatim>\<open>processor\<close> is a struct without fields and is
  left out.
\<close>

record ('r, 'w) ProcessingContext =
  src :: 'r
  dst :: 'w
  opts :: Options
  buffer :: "byte list"
  totalRead :: uint64
  trimBuffer :: "byte list"
  hasTrimSpaces :: bool

subsection \<open>The conversions\<close>

definition upperCase :: "caseTables \<Rightarrow> byte list \<Rightarrow> byte list" where
  "upperCase T data = strings_ToUpper (fst T) data"

definition lowerCase :: "caseTables \<Rightarrow> byte list \<Rightarrow> byte list" where
  "lowerCase T data = strings_ToLower (snd T) data"

definition trimSpaces :: "byte list \<Rightarrow> byte list" where
  "trimSpaces data = (if length data \<le> 2 then data else TrimSpace data)"

definition Convers :: "caseTables \<Rightarrow> byte list \<Rightarrow> string \<Rightarrow> byte list" where
  "Convers T data conv =
     (if conv = ''upper_case'' then upperCase T data
      else if conv = ''lower_case'' then lowerCase T data
      else if conv = ''trim_spaces'' then trimSpaces data
      else data)"

text \<open>The loop of \<^verbatim>\<open>applyConversions\<close> over the conversions, with its variable \<open>result\<close>.\<close>

fun applyLoop :: "caseTables \<Rightarrow> byte list \<Rightarrow> string list \<Rightarrow> byte list" where
  "applyLoop T result [] = result"
| "applyLoop T result (conv # conversions) = applyLoop T (Convers T result conv) conversions"

definition applyConversions :: "caseTables \<Rightarrow> byte list \<Rightarrow> string list \<Rightarrow> byte list" where
  "applyConversions T data conversions =
     (if length conversions = 0 then data else applyLoop T data conversions)"

subsection \<open>Validation\<close>

text \<open>The loop of \<^verbatim>\<open>validateOptions\<close>; \<open>Inl\<close> is its early return.\<close>

fun validateLoop :: "string list \<Rightarrow> bool \<Rightarrow> bool \<Rightarrow> error + bool \<times> bool" where
  "validateLoop [] hasUpper hasLower = Inr (hasUpper, hasLower)"
| "validateLoop (v # vs) hasUpper hasLower =
     (if v = ''upper_case'' then validateLoop vs True hasLower
      else if v = ''lower_case'' then validateLoop vs hasUpper True
      else if v = ''trim_spaces'' then validateLoop vs hasUpper hasLower
      else Inl (ErrMsg (''unknown conversion type: '' @ v)))"

definition validateOptions :: "Options \<Rightarrow> error option" where
  "validateOptions options =
     (case validateLoop (Conv options) False False of
        Inl e \<Rightarrow> Some e
      | Inr (hasUpper, hasLower) \<Rightarrow>
          if hasLower \<and> hasUpper then
            Some (ErrMsg ''can't use both 'upper_case' and 'lower_case' conversion types'')
          else None)"

subsection \<open>The pipeline\<close>

text \<open>
  \<^verbatim>\<open>make([]byte, blockSize)\<close> is a list of that many zero bytes; that Go cannot
  allocate a buffer of any size is not part of the model.
\<close>

definition newProcessingContext :: "'r \<Rightarrow> 'w \<Rightarrow> Options \<Rightarrow> ('r, 'w) ProcessingContext" where
  "newProcessingContext s d os =
     (let blockSize = (if BlockSize os = 0 then defaultBlockSize else BlockSize os) in
      \<lparr>src = s, dst = d, opts = os, buffer = replicate (unat blockSize) 0, totalRead = 0,
       trimBuffer = [], hasTrimSpaces = (''trim_spaces'' \<in> set (Conv os))\<rparr>)"

definition calculateReadSize :: "('r, 'w) ProcessingContext \<Rightarrow> uint64" where
  "calculateReadSize ctx =
     (let readSize = word_of_nat (length (buffer ctx)) in
      if 0 < Limit (opts ctx) then
        let remaining = Limit (opts ctx) - totalRead ctx in
        if remaining < readSize then remaining else readSize
      else readSize)"

text \<open>
  \<^verbatim>\<open>readAndProcess\<close>: the reader stores its \<open>n\<close> bytes at the head of the buffer,
  and the block is \<^verbatim>\<open>ctx.buffer[:n]\<close>.  The model is that of a reader that gives at
  most the \<open>toRead\<close> bytes it was asked for, as the contract of \<^verbatim>\<open>io.Reader\<close> says;
  the statements below assume it.
\<close>

definition readAndProcess ::
  "caseTables \<Rightarrow> 'r reader \<Rightarrow> 'w writer \<Rightarrow> ('r, 'w) ProcessingContext \<Rightarrow> uint64
     \<Rightarrow> error option \<times> ('r, 'w) ProcessingContext" where
  "readAndProcess T rd wr ctx toRead =
     (case rd (src ctx) (unat toRead) of (bs, err, s') \<Rightarrow>
        let n = length bs;
            ctx1 = ctx\<lparr>src := s', buffer := bs @ drop n (buffer ctx)\<rparr>
        in
        if 0 < n then
          if BlockSize (opts ctx1) = 1 \<and> hasTrimSpaces ctx1 then
            let ctx2 = ctx1\<lparr>trimBuffer := trimBuffer ctx1 @ take n (buffer ctx1)\<rparr>
            in (err, ctx2\<lparr>totalRead := totalRead ctx2 + word_of_nat n\<rparr>)
          else
            let processedData = applyConversions T (take n (buffer ctx1)) (Conv (opts ctx1)) in
            case wr (dst ctx1) processedData of (writeErr, d') \<Rightarrow>
              let ctx2 = ctx1\<lparr>dst := d'\<rparr> in
              (case writeErr of
                 Some e \<Rightarrow> (Some (Errorf ''write processed data error'' e), ctx2)
               | None \<Rightarrow> (err, ctx2\<lparr>totalRead := totalRead ctx2 + word_of_nat n\<rparr>))
        else (err, ctx1))"

definition finalizeTrimProcessing ::
  "caseTables \<Rightarrow> 'w writer \<Rightarrow> ('r, 'w) ProcessingContext \<Rightarrow> error option \<times> ('r, 'w) ProcessingContext" where
  "finalizeTrimProcessing T wr ctx =
     (if BlockSize (opts ctx) = 1 \<and> hasTrimSpaces ctx \<and> 0 < length (trimBuffer ctx) then
        let processedData = applyConversions T (trimBuffer ctx) (Conv (opts ctx)) in
        case wr (dst ctx) processedData of (err, d') \<Rightarrow>
          (case err of
             Some e \<Rightarrow> (Some (Errorf ''write final processed data error'' e), ctx\<lparr>dst := d'\<rparr>)
           | None \<Rightarrow> (None, ctx\<lparr>dst := d'\<rparr>))
      else (None, ctx))"

text \<open>
  The \<^verbatim>\<open>for\<close> loop of \<^verbatim>\<open>processData\<close>.  It has no bound in Go (a reader may give
  no byte and no error for ever), so it runs on fuel and \<open>None\<close> is "out of fuel".  The
  result is the error with which the function leaves the loop, or \<open>None\<close> at a
  \<^verbatim>\<open>break\<close>, and the context.
\<close>

fun readLoop ::
  "nat \<Rightarrow> caseTables \<Rightarrow> 'r reader \<Rightarrow> 'w writer \<Rightarrow> ('r, 'w) ProcessingContext
     \<Rightarrow> (error option \<times> ('r, 'w) ProcessingContext) option" where
  "readLoop 0 T rd wr ctx = None"
| "readLoop (Suc fuel) T rd wr ctx =
     (let toRead = calculateReadSize ctx in
      if toRead = minSize then Some (None, ctx)
      else
        case readAndProcess T rd wr ctx toRead of (err, ctx') \<Rightarrow>
          (case err of
             Some e \<Rightarrow>
               if e = EOF then Some (None, ctx')
               else Some (Some (Errorf ''read data error'' e), ctx')
           | None \<Rightarrow> readLoop fuel T rd wr ctx'))"

text \<open>\<^verbatim>\<open>processData\<close> gives its error; the model gives the last context as well.\<close>

definition processData ::
  "nat \<Rightarrow> caseTables \<Rightarrow> 'r reader \<Rightarrow> 'w writer \<Rightarrow> 'r \<Rightarrow> 'w \<Rightarrow> Options
     \<Rightarrow> (error option \<times> ('r, 'w) ProcessingContext) option" where
  "processData fuel T rd wr s d os =
     (let ctx = newProcessingContext s d os in
      case readLoop fuel T rd wr ctx of
        None \<Rightarrow> None
      | Some (Some e, ctx') \<Rightarrow> Some (Some e, ctx')
      | Some (None, ctx') \<Rightarrow>
          (case finalizeTrimProcessing T wr ctx' of
             (Some e, ctx'') \<Rightarrow> Some (Some (Errorf ''can't trim spaces'' e), ctx'')
           | (None, ctx'') \<Rightarrow> Some (None, ctx'')))"

text \<open>\<^verbatim>\<open>int64(offset)\<close> is the signed reading \<open>sint\<close> of the 64 bits.\<close>

definition skipBytes :: "nat \<Rightarrow> 'r reader \<Rightarrow> 'r \<Rightarrow> uint64 \<Rightarrow> (error option \<times> 'r) option" where
  "skipBytes fuel rd s offset =
     (if 0 < offset then
        (case io_CopyN fuel rd s (sint offset) of
           None \<Rightarrow> None
         | Some (written, Some e, s') \<Rightarrow> Some (Some (Errorf ''can't skip offset'' e), s')
         | Some (written, None, s') \<Rightarrow> Some (None, s'))
      else Some (None, s))"

text \<open>\<^verbatim>\<open>Process\<close> gives its error; the model gives the reader and the writer as well.\<close>

definition Process ::
  "nat \<Rightarrow> caseTables \<Rightarrow> 'r reader \<Rightarrow> 'w writer \<Rightarrow> 'r \<Rightarrow> 'w \<Rightarrow> Options
     \<Rightarrow> (error option \<times> 'r \<times> 'w) option" where
  "Process fuel T rd wr s d os =
     (case skipBytes fuel rd s (Offset os) of
        None \<Rightarrow> None
      | Some (Some e, s') \<Rightarrow> Some (Some e, s', d)
      | Some (None, s') \<Rightarrow>
          (case processData fuel T rd wr s' d os of
             None \<Rightarrow> None
           | Some (err, ctx) \<Rightarrow> Some (err, src ctx, dst ctx)))"

text \<open>
  \<^verbatim>\<open>main\<close> from the parsed options on: \<^verbatim>\<open>ParseFlags\<close> ends with \<^verbatim>\<open>validateOptions\<close>,
  and only then are the reader and the writer opened and \<^verbatim>\<open>Process\<close> called.  An
  error is printed and the exit code is 1.
\<close>

definition main ::
  "nat \<Rightarrow> caseTables \<Rightarrow> 'r reader \<Rightarrow> 'w writer \<Rightarrow> 'r \<Rightarrow> 'w \<Rightarrow> Options
     \<Rightarrow> (error option \<times> 'r \<times> 'w) option" where
  "main fuel T rd wr s d os =
     (case validateOptions os of
        Some e \<Rightarrow> Some (Some (Errorf ''invalid options'' e), s, d)
      | None \<Rightarrow> Process fuel T rd wr s d os)"

section \<open>Readers, writers and tables of the examples\<close>

text \<open>
  A reader over a byte sequence, as \<^verbatim>\<open>bytes.Reader\<close>: the state is what is left, and
  \<^verbatim>\<open>io.EOF\<close> comes with no byte once nothing is left.
\<close>

definition bytesRead :: "byte list reader" where
  "bytesRead r k = (if r = [] then ([], Some EOF, r) else (take k r, None, drop k r))"

text \<open>
  A reader that gives at most 3 bytes at a time and \<^verbatim>\<open>io.EOF\<close> together with the
  last bytes, as \<^verbatim>\<open>iotest.DataErrReader\<close> does.
\<close>

definition dataErrRead :: "byte list reader" where
  "dataErrRead r k =
     (let n = min k 3 in
      (take n r, if length r \<le> n then Some EOF else None, drop n r))"

text \<open>A reader whose device fails after it gave its bytes.\<close>

definition brokenRead :: "byte list reader" where
  "brokenRead r k =
     (take k r, if length r \<le> k then Some (IOError ''input/output error'') else None, drop k r)"

text \<open>A writer that records every \<^verbatim>\<open>Write\<close> and never fails.\<close>

definition logWrite :: "byte list list writer" where
  "logWrite w bs = (None, w @ [bs])"

text \<open>A fragment of the case tables: the letters of Latin-1.\<close>

definition latin1 :: caseTables where
  "latin1 =
     (\<lambda>r. if 0xE0 \<le> r \<and> r \<le> 0xFE \<and> r \<noteq> 0xF7 then r - 0x20 else r,
      \<lambda>r. if 0xC0 \<le> r \<and> r \<le> 0xDE \<and> r \<noteq> 0xD7 then r + 0x20 else r)"

text \<open>The bytes of an ASCII string.\<close>

definition bytes :: "string \<Rightarrow> byte list" where
  "bytes str = map (\<lambda>c. word_of_nat (of_char c)) str"

section \<open>Notions of the statements\<close>

text \<open>
  The contract of \<^verbatim>\<open>io.Reader\<close>: \<^verbatim>\<open>Read(p)\<close> gives at most \<open>len(p)\<close> bytes.
\<close>

definition readerContract :: "'r reader \<Rightarrow> bool" where
  "readerContract rd = (\<forall>r k. length (fst (rd r k)) \<le> k)"

text \<open>
  A reader over a source with a content: \<open>avail r\<close> is what the source still holds in
  state \<open>r\<close>.  A read takes its bytes from the head of it, and \<^verbatim>\<open>io.EOF\<close> comes
  only when nothing is left after the read.  Short reads, reads of no byte and
  other errors are all allowed.
\<close>

definition sourceOf :: "'r reader \<Rightarrow> ('r \<Rightarrow> byte list) \<Rightarrow> bool" where
  "sourceOf rd avail =
     (\<forall>r k. case rd r k of (bs, err, r') \<Rightarrow>
        length bs \<le> k \<and> avail r = bs @ avail r' \<and> (err \<noteq> Some EOF \<or> avail r' = []))"

text \<open>The block size of the run: the length of the buffer that \<^verbatim>\<open>newProcessingContext\<close> makes.\<close>

definition effBlockSize :: "Options \<Rightarrow> uint64" where
  "effBlockSize os = (if BlockSize os = 0 then defaultBlockSize else BlockSize os)"

text \<open>The test of \<^verbatim>\<open>readAndProcess\<close> and \<^verbatim>\<open>finalizeTrimProcessing\<close> for the deferred write.\<close>

definition bufferingPolicy :: "Options \<Rightarrow> bool" where
  "bufferingPolicy os = (BlockSize os = 1 \<and> ''trim_spaces'' \<in> set (Conv os))"

text \<open>The writer after a sequence of \<^verbatim>\<open>Write\<close> calls.\<close>

definition writes :: "'w writer \<Rightarrow> 'w \<Rightarrow> byte list list \<Rightarrow> 'w" where
  "writes wr d xs = foldl (\<lambda>d' x. snd (wr d' x)) d xs"

text \<open>
  What holds of the context throughout a run with options \<open>os\<close>: the options, the
  length of the buffer and the flag are those of \<^verbatim>\<open>newProcessingContext\<close>, and the
  count of bytes is within the limit when there is one.
\<close>

definition ctxInv :: "Options \<Rightarrow> ('r, 'w) ProcessingContext \<Rightarrow> bool" where
  "ctxInv os c =
     (opts c = os \<and> length (buffer c) = unat (effBlockSize os)
      \<and> hasTrimSpaces c = (''trim_spaces'' \<in> set (Conv os))
      \<and> (if 0 < Limit os then totalRead c \<le> Limit os else True))"

text \<open>
  The contexts of a run of the loop of \<^verbatim>\<open>processData\<close> from context \<open>c\<close>: \<open>c\<close>
  itself, and the context after each \<^verbatim>\<open>readAndProcess\<close>; the loop goes on only after
  a call without error.
\<close>

inductive visits ::
  "caseTables \<Rightarrow> 'r reader \<Rightarrow> 'w writer \<Rightarrow> ('r, 'w) ProcessingContext
     \<Rightarrow> ('r, 'w) ProcessingContext \<Rightarrow> bool"
  for T :: caseTables and rd :: "'r reader" and wr :: "'w writer" where
  visits_here: "visits T rd wr c c"
| visits_last: "calculateReadSize c \<noteq> minSize \<Longrightarrow>
     readAndProcess T rd wr c (calculateReadSize c) = (Some e, c') \<Longrightarrow> visits T rd wr c c'"
| visits_next: "calculateReadSize c \<noteq> minSize \<Longrightarrow>
     readAndProcess T rd wr c (calculateReadSize c) = (None, c') \<Longrightarrow>
     visits T rd wr c' c'' \<Longrightarrow> visits T rd wr c c''"

text \<open>
  What \<^verbatim>\<open>strings.ToUpper\<close> and \<^verbatim>\<open>strings.ToLower\<close> do to one byte of an ASCII string,
  and the ASCII letters.
\<close>

definition upByte :: "byte \<Rightarrow> byte" where
  "upByte c = (if isLowerByte c then c - 0x20 else c)"

definition lowByte :: "byte \<Rightarrow> byte" where
  "lowByte c = (if isUpperByte c then c + 0x20 else c)"

definition isLetterByte :: "byte \<Rightarrow> bool" where
  "isLetterByte c = (isUpperByte c \<or> isLowerByte c)"

text \<open>
  The runes that UTF-8 encodes: the Unicode scalar values.  Every rune that
  \<^verbatim>\<open>utf8.DecodeRuneInString\<close> gives is one of them.
\<close>

definition validRune :: "rune \<Rightarrow> bool" where
  "validRune r = (0 \<le> r \<and> r \<le> 0x10FFFF \<and> \<not> (0xD800 \<le> r \<and> r \<le> 0xDFFF))"

text \<open>
  What the statements ask of a case mapping of runes (\<^verbatim>\<open>unicode.ToUpper\<close> or
  \<^verbatim>\<open>unicode.ToLower\<close> with the table of the library): it maps scalar values to scalar
  values and a mapped rune is mapped to itself.
\<close>

definition caseMapOK :: "(rune \<Rightarrow> rune) \<Rightarrow> bool" where
  "caseMapOK f = (\<forall>r. validRune r \<longrightarrow> validRune (f r) \<and> f (f r) = f r)"

text \<open>
  White space in a byte string: \<open>whiteSpaceOnly\<close> when its runes are all white space
  (so it is valid UTF-8); \<open>startsWithSpace\<close> and \<open>endsWithSpace\<close> when its first
  rune, read forwards, or its last rune, read backwards, is white space.
\<close>

definition whiteSpaceOnly :: "byte list \<Rightarrow> bool" where
  "whiteSpaceOnly bs = list_all IsSpace (decodeAll bs)"

definition startsWithSpace :: "byte list \<Rightarrow> bool" where
  "startsWithSpace bs = IsSpace (fst (DecodeRune bs))"

definition endsWithSpace :: "byte list \<Rightarrow> bool" where
  "endsWithSpace bs = IsSpace (fst (DecodeLastRune bs))"

section \<open>The conversion chain\<close>

lemma applyLoop_foldl: "applyLoop T result conversions = foldl (Convers T) result conversions"
  by (induction conversions arbitrary: result) simp_all

text \<open>
  Claim C5.  \<^verbatim>\<open>applyConversions\<close> folds \<^verbatim>\<open>Convers\<close> over the data from left to right,
  in the order of the list: it is the left fold, the first conversion of the list is
  applied first and the last one last; on the empty list it gives the data back.
\<close>

theorem C5_applyConversions_in_order:
  "applyConversions T data conversions = foldl (Convers T) data conversions
   \<and> applyConversions T data (conv # conversions) = applyConversions T (Convers T data conv) conversions
   \<and> applyConversions T data (conversions @ [conv]) = Convers T (applyConversions T data conversions) conv
   \<and> applyConversions T data [] = data"
  by (simp add: applyConversions_def applyLoop_foldl)

section \<open>The read loop\<close>

lemma ctxInv_new: "ctxInv os (newProcessingContext s d os)"
  by (simp add: ctxInv_def newProcessingContext_def effBlockSize_def Let_def)

lemma calculateReadSize_le_buffer:
  "ctxInv os c \<Longrightarrow> unat (calculateReadSize c) \<le> length (buffer c)"
  by (auto simp: ctxInv_def calculateReadSize_def Let_def word_less_nat_alt)

lemma calculateReadSize_le_remaining:
  "ctxInv os c \<Longrightarrow> 0 < Limit os \<Longrightarrow> calculateReadSize c \<le> Limit os - totalRead c"
  by (auto simp: ctxInv_def calculateReadSize_def Let_def)

lemma totalRead_step:
  fixes tr lim :: uint64
  assumes "tr \<le> lim" and "n \<le> unat tr'" and "tr' \<le> lim - tr"
  shows "tr + word_of_nat n \<le> lim" and "unat (tr + word_of_nat n) = unat tr + n"
proof -
  have a: "unat (lim - tr) = unat lim - unat tr"
    using assms(1) by (simp add: unat_sub)
  have b: "unat tr' \<le> unat lim - unat tr"
    using assms(3) a by (simp add: word_le_nat_alt)
  have c: "unat tr \<le> unat lim"
    using assms(1) by (simp add: word_le_nat_alt)
  have d: "unat lim < 2 ^ 64"
    using unsigned_less [of lim, where 'a = nat] by simp
  have e: "unat tr + n < 2 ^ 64"
    using assms(2) b c d by linarith
  show "unat (tr + word_of_nat n) = unat tr + n"
    using e by (simp add: unat_word_ariths unat_of_nat take_bit_nat_eq_self)
  then show "tr + word_of_nat n \<le> lim"
    using assms(2) b c by (simp add: word_le_nat_alt)
qed

lemma ctxInv_step:
  assumes contract: "readerContract rd"
    and inv: "ctxInv os c"
    and rp: "readAndProcess T rd wr c (calculateReadSize c) = (err, c')"
  shows "ctxInv os c'"
proof -
  obtain bs e s' where r: "rd (src c) (unat (calculateReadSize c)) = (bs, e, s')"
    by (cases "rd (src c) (unat (calculateReadSize c))") auto
  have len: "length bs \<le> unat (calculateReadSize c)"
  proof -
    from contract have "length (fst (rd (src c) (unat (calculateReadSize c)))) \<le> unat (calculateReadSize c)"
      unfolding readerContract_def by blast
    with r show ?thesis by simp
  qed
  have lenb: "length bs \<le> length (buffer c)"
    using len calculateReadSize_le_buffer [OF inv] by linarith
  have tr: "0 < Limit os \<Longrightarrow> totalRead c + word_of_nat (length bs) \<le> Limit os"
    using totalRead_step(1) [of "totalRead c" "Limit os" "length bs" "calculateReadSize c"]
      inv len calculateReadSize_le_remaining [OF inv]
    by (simp add: ctxInv_def)
  show ?thesis
    using rp r inv lenb tr
    by (auto simp: readAndProcess_def ctxInv_def Let_def split: prod.splits option.splits if_splits)
qed

lemma visits_inv:
  assumes contract: "readerContract rd"
  shows "visits T rd wr c c' \<Longrightarrow> ctxInv os c \<Longrightarrow> ctxInv os c'"
proof (induction rule: visits.induct)
  case (visits_here c)
  then show ?case .
next
  case (visits_last c e c')
  then show ?case using ctxInv_step [OF contract] by blast
next
  case (visits_next c c' c'')
  from visits_next.prems visits_next.hyps(2) have "ctxInv os c'"
    by (rule ctxInv_step [OF contract])
  then show ?case by (rule visits_next.IH)
qed

lemma readLoop_visits:
  "readLoop fuel T rd wr c = Some (e, c') \<Longrightarrow> visits T rd wr c c'"
proof (induction fuel arbitrary: c)
  case 0
  then show ?case by simp
next
  case (Suc fuel)
  show ?case
  proof (cases "calculateReadSize c = minSize")
    case True
    with Suc.prems show ?thesis by (simp add: visits_here)
  next
    case False
    obtain err c1 where rp: "readAndProcess T rd wr c (calculateReadSize c) = (err, c1)"
      by (cases "readAndProcess T rd wr c (calculateReadSize c)") auto
    show ?thesis
    proof (cases err)
      case None
      with Suc.prems False rp have "readLoop fuel T rd wr c1 = Some (e, c')"
        by (simp add: Let_def)
      then have "visits T rd wr c1 c'" by (rule Suc.IH)
      with False rp None show ?thesis by (auto intro: visits_next)
    next
      case (Some x)
      with Suc.prems False rp have "c' = c1"
        by (auto simp: Let_def split: if_splits)
      with False rp Some show ?thesis by (auto intro: visits_last)
    qed
  qed
qed

lemma sourceOf_contract: "sourceOf rd avail \<Longrightarrow> readerContract rd"
  unfolding sourceOf_def readerContract_def
proof (intro allI)
  fix r k
  assume a: "\<forall>r k. case rd r k of (bs, err, r') \<Rightarrow>
        length bs \<le> k \<and> avail r = bs @ avail r' \<and> (err \<noteq> Some EOF \<or> avail r' = [])"
  then have "case rd r k of (bs, err, r') \<Rightarrow>
        length bs \<le> k \<and> avail r = bs @ avail r' \<and> (err \<noteq> Some EOF \<or> avail r' = [])"
    by (elim allE)
  then show "length (fst (rd r k)) \<le> k"
    by (cases "rd r k") auto
qed

lemma sourceOf_read:
  assumes "sourceOf rd avail" and "rd r k = (bs, err, r')"
  shows "length bs \<le> k" and "avail r = bs @ avail r'" and "err = Some EOF \<Longrightarrow> avail r' = []"
proof -
  from assms(1) have "case rd r k of (bs, err, r') \<Rightarrow>
        length bs \<le> k \<and> avail r = bs @ avail r' \<and> (err \<noteq> Some EOF \<or> avail r' = [])"
    unfolding sourceOf_def by (elim allE)
  with assms(2) show "length bs \<le> k" and "avail r = bs @ avail r'" and "err = Some EOF \<Longrightarrow> avail r' = []"
    by auto
qed

lemma readAndProcess_cases:
  assumes inv: "ctxInv os c"
    and r: "rd (src c) (unat toRead) = (bs, err, s')"
    and len: "length bs \<le> length (buffer c)"
    and rp: "readAndProcess T rd wr c toRead = (e, c')"
  shows "src c' = s' \<and> opts c' = os \<and> hasTrimSpaces c' = hasTrimSpaces c
     \<and> length (buffer c') = length (buffer c)
     \<and> (if bs = [] then e = err \<and> dst c' = dst c \<and> trimBuffer c' = trimBuffer c \<and> totalRead c' = totalRead c
         else if bufferingPolicy os then
           e = err \<and> dst c' = dst c \<and> trimBuffer c' = trimBuffer c @ bs
           \<and> totalRead c' = totalRead c + word_of_nat (length bs)
         else
           dst c' = snd (wr (dst c) (applyConversions T bs (Conv os))) \<and> trimBuffer c' = trimBuffer c
           \<and> (case fst (wr (dst c) (applyConversions T bs (Conv os))) of
                 Some we \<Rightarrow> e = Some (Errorf ''write processed data error'' we) \<and> totalRead c' = totalRead c
               | None \<Rightarrow> e = err \<and> totalRead c' = totalRead c + word_of_nat (length bs)))"
  using inv r len rp
  by (auto simp: readAndProcess_def ctxInv_def bufferingPolicy_def Let_def
           split: prod.splits option.splits if_splits)

lemma writes_append: "writes wr d (xs @ ys) = writes wr (writes wr d xs) ys"
  by (simp add: writes_def)

lemma writes_simps [simp]: "writes wr d [] = d" "writes wr d (x # xs) = writes wr (snd (wr d x)) xs"
  by (simp_all add: writes_def)

lemma calculateReadSize_zero:
  assumes inv: "ctxInv os c" and z: "calculateReadSize c = 0"
  shows "0 < Limit os \<and> totalRead c = Limit os"
proof -
  have eb: "effBlockSize os \<noteq> 0"
    by (simp add: effBlockSize_def defaultBlockSize_def)
  have rs: "(word_of_nat (length (buffer c)) :: uint64) = effBlockSize os"
    using inv by (simp add: ctxInv_def)
  from z rs eb show ?thesis
    using inv by (auto simp: calculateReadSize_def Let_def ctxInv_def split: if_splits)
qed

lemma readAndProcess_ok:
  assumes so: "sourceOf rd avail" and inv: "ctxInv os c"
    and rp: "readAndProcess T rd wr c (calculateReadSize c) = (e, c')"
    and ok: "e = None \<or> e = Some EOF"
  shows "\<exists>bs. avail (src c) = bs @ avail (src c')
      \<and> (if bufferingPolicy os then dst c' = dst c \<and> trimBuffer c' = trimBuffer c @ bs
          else dst c' = writes wr (dst c) (map (\<lambda>b. applyConversions T b (Conv os)) (if bs = [] then [] else [bs]))
               \<and> trimBuffer c' = trimBuffer c)
      \<and> (if 0 < Limit os then unat (totalRead c') = unat (totalRead c) + length bs else True)
      \<and> (if e = Some EOF then avail (src c') = [] else True)
      \<and> ctxInv os c'"
proof -
  obtain bs err s' where r: "rd (src c) (unat (calculateReadSize c)) = (bs, err, s')"
    by (cases "rd (src c) (unat (calculateReadSize c))") auto
  note sr = sourceOf_read [OF so r]
  have lenb: "length bs \<le> length (buffer c)"
    using sr(1) calculateReadSize_le_buffer [OF inv] by linarith
  note cs = readAndProcess_cases [OF inv r lenb rp]
  have inv': "ctxInv os c'"
    by (rule ctxInv_step [OF sourceOf_contract [OF so] inv rp])
  have nowerr: "bs \<noteq> [] \<Longrightarrow> \<not> bufferingPolicy os \<Longrightarrow> fst (wr (dst c) (applyConversions T bs (Conv os))) = None"
    using cs ok by (auto split: option.splits)
  have e: "e = err"
    using cs ok nowerr by (auto split: option.splits if_splits)
  have tr: "totalRead c' = totalRead c + word_of_nat (length bs)"
    using cs nowerr by (cases "bs = []") (auto split: option.splits if_splits)
  have cnt: "0 < Limit os \<Longrightarrow> unat (totalRead c') = unat (totalRead c) + length bs"
    using totalRead_step(2) [of "totalRead c" "Limit os" "length bs" "calculateReadSize c"]
      inv sr(1) calculateReadSize_le_remaining [OF inv] tr
    by (simp add: ctxInv_def)
  have "avail (src c) = bs @ avail (src c')"
    using sr(2) cs by simp
  moreover have "if bufferingPolicy os then dst c' = dst c \<and> trimBuffer c' = trimBuffer c @ bs
          else dst c' = writes wr (dst c) (map (\<lambda>b. applyConversions T b (Conv os)) (if bs = [] then [] else [bs]))
               \<and> trimBuffer c' = trimBuffer c"
    using cs by (auto split: if_splits)
  moreover have "if e = Some EOF then avail (src c') = [] else True"
    using sr(3) e cs by simp
  ultimately show ?thesis
    using cnt inv' by (intro exI [of _ bs]) simp
qed

lemma readLoop_success:
  assumes so: "sourceOf rd avail"
  shows "ctxInv os c \<Longrightarrow> readLoop fuel T rd wr c = Some (None, c') \<Longrightarrow>
    \<exists>blocks. avail (src c) = concat blocks @ avail (src c') \<and> [] \<notin> set blocks
      \<and> (if bufferingPolicy os then dst c' = dst c \<and> trimBuffer c' = trimBuffer c @ concat blocks
          else dst c' = writes wr (dst c) (map (\<lambda>b. applyConversions T b (Conv os)) blocks)
               \<and> trimBuffer c' = trimBuffer c)
      \<and> (if 0 < Limit os then unat (totalRead c') = unat (totalRead c) + length (concat blocks) else True)
      \<and> ((0 < Limit os \<and> totalRead c' = Limit os) \<or> avail (src c') = [])
      \<and> ctxInv os c'"
proof (induction fuel arbitrary: c)
  case 0
  then show ?case by simp
next
  case (Suc fuel)
  show ?case
  proof (cases "calculateReadSize c = minSize")
    case True
    with Suc.prems have "c' = c" by simp
    moreover have "0 < Limit os \<and> totalRead c = Limit os"
      using calculateReadSize_zero [OF Suc.prems(1)] True by (simp add: minSize_def)
    ultimately show ?thesis
      using Suc.prems(1) by (intro exI [of _ "[]"]) simp
  next
    case False
    obtain e c1 where rp: "readAndProcess T rd wr c (calculateReadSize c) = (e, c1)"
      by (cases "readAndProcess T rd wr c (calculateReadSize c)") auto
    have ok: "e = None \<or> e = Some EOF"
      using Suc.prems(2) False rp by (auto simp: Let_def split: option.splits if_splits)
    from readAndProcess_ok [OF so Suc.prems(1) rp ok]
    obtain bs where b: "avail (src c) = bs @ avail (src c1)"
      "if bufferingPolicy os then dst c1 = dst c \<and> trimBuffer c1 = trimBuffer c @ bs
          else dst c1 = writes wr (dst c) (map (\<lambda>b. applyConversions T b (Conv os)) (if bs = [] then [] else [bs]))
               \<and> trimBuffer c1 = trimBuffer c"
      "if 0 < Limit os then unat (totalRead c1) = unat (totalRead c) + length bs else True"
      "if e = Some EOF then avail (src c1) = [] else True"
      "ctxInv os c1"
      by blast
    let ?b = "if bs = [] then [] else [bs]"
    show ?thesis
    proof (cases e)
      case None
      with Suc.prems(2) False rp have "readLoop fuel T rd wr c1 = Some (None, c')"
        by (simp add: Let_def)
      from Suc.IH [OF b(5) this]
      obtain blocks where bl: "avail (src c1) = concat blocks @ avail (src c')" "[] \<notin> set blocks"
        "if bufferingPolicy os then dst c' = dst c1 \<and> trimBuffer c' = trimBuffer c1 @ concat blocks
          else dst c' = writes wr (dst c1) (map (\<lambda>b. applyConversions T b (Conv os)) blocks)
               \<and> trimBuffer c' = trimBuffer c1"
        "if 0 < Limit os then unat (totalRead c') = unat (totalRead c1) + length (concat blocks) else True"
        "(0 < Limit os \<and> totalRead c' = Limit os) \<or> avail (src c') = []"
        "ctxInv os c'"
        by blast
      show ?thesis
        using b(1-3) bl
        by (intro exI [of _ "?b @ blocks"]) (auto simp: writes_append split: if_splits)
    next
      case (Some x)
      with ok have eof: "e = Some EOF" by simp
      with Suc.prems(2) False rp have "c' = c1"
        by (simp add: Let_def)
      with b eof show ?thesis
        by (intro exI [of _ "?b"]) (auto split: if_splits)
    qed
  qed
qed

lemma finalizeTrimProcessing_ok:
  assumes inv: "ctxInv os c" and f: "finalizeTrimProcessing T wr c = (None, c')"
  shows "src c' = src c \<and> totalRead c' = totalRead c \<and> trimBuffer c' = trimBuffer c
     \<and> dst c' = (if bufferingPolicy os \<and> trimBuffer c \<noteq> []
                 then snd (wr (dst c) (applyConversions T (trimBuffer c) (Conv os))) else dst c)"
  using inv f
  by (auto simp: finalizeTrimProcessing_def ctxInv_def bufferingPolicy_def Let_def
           split: if_splits prod.splits option.splits)

lemma processData_success:
  assumes so: "sourceOf rd avail"
    and run: "processData fuel T rd wr s d os = Some (None, c)"
  shows "\<exists>blocks. avail s = concat blocks @ avail (src c) \<and> [] \<notin> set blocks
      \<and> dst c = writes wr d
           (if bufferingPolicy os then
              (if blocks = [] then [] else [applyConversions T (concat blocks) (Conv os)])
            else map (\<lambda>b. applyConversions T b (Conv os)) blocks)
      \<and> (if bufferingPolicy os then trimBuffer c = concat blocks else trimBuffer c = [])
      \<and> (if 0 < Limit os then unat (totalRead c) = length (concat blocks) \<and> totalRead c \<le> Limit os else True)
      \<and> ((0 < Limit os \<and> totalRead c = Limit os) \<or> avail (src c) = [])"
proof -
  let ?c0 = "newProcessingContext s d os"
  from run obtain c1 where l: "readLoop fuel T rd wr ?c0 = Some (None, c1)"
    and f: "finalizeTrimProcessing T wr c1 = (None, c)"
    by (auto simp: processData_def Let_def split: option.splits prod.splits)
  have c0: "src ?c0 = s" "dst ?c0 = d" "trimBuffer ?c0 = []" "totalRead ?c0 = 0"
    by (simp_all add: newProcessingContext_def Let_def)
  from readLoop_success [OF so ctxInv_new l]
  obtain blocks where bl: "avail s = concat blocks @ avail (src c1)" "[] \<notin> set blocks"
        "if bufferingPolicy os then dst c1 = d \<and> trimBuffer c1 = concat blocks
          else dst c1 = writes wr d (map (\<lambda>b. applyConversions T b (Conv os)) blocks)
               \<and> trimBuffer c1 = []"
        "if 0 < Limit os then unat (totalRead c1) = length (concat blocks) else True"
        "(0 < Limit os \<and> totalRead c1 = Limit os) \<or> avail (src c1) = []"
        "ctxInv os c1"
    unfolding c0 by auto
  note fo = finalizeTrimProcessing_ok [OF bl(6) f]
  have ne: "concat blocks = [] \<longleftrightarrow> blocks = []"
    using bl(2) by (cases blocks) auto
  have lim: "0 < Limit os \<Longrightarrow> totalRead c1 \<le> Limit os"
    using bl(6) by (simp add: ctxInv_def)
  show ?thesis
    using bl(1-5) fo ne lim
    by (intro exI [of _ blocks]) (auto split: if_splits)
qed

section \<open>The readers of the examples\<close>

lemma sourceOf_bytesRead: "sourceOf bytesRead (\<lambda>r. r)"
  by (simp add: sourceOf_def bytesRead_def)

lemma sourceOf_dataErrRead: "sourceOf dataErrRead (\<lambda>r. r)"
  by (auto simp: sourceOf_def dataErrRead_def Let_def)

lemma readerContract_brokenRead: "readerContract brokenRead"
  by (simp add: readerContract_def brokenRead_def)

section \<open>The count of bytes and the limit\<close>

text \<open>
  Claim C2.  Take a reader over a source with a content, a limit above 0 and a run of
  \<^verbatim>\<open>processData\<close> that returns without error.  Then the blocks that were read, none
  of them empty, are together the first \<open>min limit available\<close> bytes of what the source
  held after the skip; the writer received exactly these blocks, each one converted
  (or, under the deferred write, their concatenation in one flush), so the lengths
  before conversion add up to that number; the source is left with the rest, and
  \<^verbatim>\<open>totalRead\<close> is that number.
\<close>

theorem C2_bytes_consumed:
  assumes "sourceOf rd avail" and "0 < Limit os"
    and "processData fuel T rd wr s d os = Some (None, c)"
  shows "\<exists>blocks. [] \<notin> set blocks
      \<and> dst c = writes wr d
           (if bufferingPolicy os then
              (if blocks = [] then [] else [applyConversions T (concat blocks) (Conv os)])
            else map (\<lambda>b. applyConversions T b (Conv os)) blocks)
      \<and> concat blocks = take (min (unat (Limit os)) (length (avail s))) (avail s)
      \<and> avail (src c) = drop (min (unat (Limit os)) (length (avail s))) (avail s)
      \<and> unat (totalRead c) = min (unat (Limit os)) (length (avail s))"
proof -
  from processData_success [OF assms(1) assms(3)] assms(2)
  obtain blocks where bl: "avail s = concat blocks @ avail (src c)" "[] \<notin> set blocks"
      "dst c = writes wr d
           (if bufferingPolicy os then
              (if blocks = [] then [] else [applyConversions T (concat blocks) (Conv os)])
            else map (\<lambda>b. applyConversions T b (Conv os)) blocks)"
      "unat (totalRead c) = length (concat blocks)" "totalRead c \<le> Limit os"
      "totalRead c = Limit os \<or> avail (src c) = []"
    by auto
  have le: "length (concat blocks) \<le> unat (Limit os)"
    using bl(4,5) by (simp add: word_le_nat_alt)
  have n: "length (concat blocks) = min (unat (Limit os)) (length (avail s))"
  proof (cases "avail (src c) = []")
    case True
    with bl(1) le show ?thesis by simp
  next
    case False
    with bl(6) have "totalRead c = Limit os" by simp
    with bl(4) have "length (concat blocks) = unat (Limit os)" by simp
    with bl(1) show ?thesis by simp
  qed
  have "concat blocks = take (min (unat (Limit os)) (length (avail s))) (avail s)"
    using bl(1) n by (metis append_eq_conv_conj)
  moreover have "avail (src c) = drop (min (unat (Limit os)) (length (avail s))) (avail s)"
    using bl(1) n by (metis append_eq_conv_conj)
  ultimately show ?thesis
    using bl(2,3,4) n by (intro exI [of _ blocks]) simp
qed

text \<open>The run of 5 bytes in blocks of 3 from \<^verbatim>\<open>hello world\<close>.\<close>

theorem C2_bytes_consumed_witness:
  "unat (totalRead (snd (the (processData 5 latin1 bytesRead logWrite (bytes ''hello world'') []
      \<lparr>From = '''', To = '''', Offset = 0, Limit = 5, BlockSize = 3, Conv = [''upper_case'']\<rparr>)))) = 5
   \<and> dst (snd (the (processData 5 latin1 bytesRead logWrite (bytes ''hello world'') []
      \<lparr>From = '''', To = '''', Offset = 0, Limit = 5, BlockSize = 3, Conv = [''upper_case'']\<rparr>)))
      = [bytes ''HEL'', bytes ''LO'']"
proof -
  let ?os = "\<lparr>From = '''', To = '''', Offset = 0, Limit = 5, BlockSize = 3, Conv = [''upper_case'']\<rparr>"
  let ?c = "\<lparr>src = bytes '' world'', dst = [bytes ''HEL'', bytes ''LO''], opts = ?os,
     buffer = bytes ''lol'', totalRead = 5, trimBuffer = [], hasTrimSpaces = False\<rparr>"
  have run: "processData 5 latin1 bytesRead logWrite (bytes ''hello world'') [] ?os = Some (None, ?c)"
    by code_simp
  have lim: "0 < Limit ?os" by simp
  from C2_bytes_consumed [OF sourceOf_bytesRead lim run]
  have "unat (totalRead ?c) = min (unat (Limit ?os)) (length (bytes ''hello world''))"
    by blast
  then show ?thesis
    using run by (simp add: bytes_def)
qed

text \<open>
  Claim C4.  With a limit above 0 and a reader that keeps the contract of
  \<^verbatim>\<open>io.Reader\<close>, every context of the run has \<^verbatim>\<open>totalRead\<close> within the limit; the
  size that the next read asks for is the minimum of the block size and of what is
  left of the limit, the read gives at most that many bytes, and \<^verbatim>\<open>totalRead\<close> grows
  by at most that and stays within the limit; and when that size is 0 the loop ends
  there, without a read.
\<close>

theorem C4_totalRead_within_limit:
  assumes "readerContract rd" and "0 < Limit os"
    and "visits T rd wr (newProcessingContext s d os) c"
  shows "totalRead c \<le> Limit os
     \<and> calculateReadSize c = min (effBlockSize os) (Limit os - totalRead c)
     \<and> length (fst (rd (src c) (unat (calculateReadSize c))))
           \<le> unat (min (effBlockSize os) (Limit os - totalRead c))
     \<and> (\<forall>e c'. readAndProcess T rd wr c (calculateReadSize c) = (e, c') \<longrightarrow>
           totalRead c' \<le> Limit os
           \<and> unat (totalRead c') \<le> unat (totalRead c) + unat (calculateReadSize c))
     \<and> (if calculateReadSize c = 0 then readLoop (Suc fuel) T rd wr c = Some (None, c) else True)"
proof -
  have inv: "ctxInv os c"
    by (rule visits_inv [OF assms(1) assms(3) ctxInv_new])
  have rs: "(word_of_nat (length (buffer c)) :: uint64) = effBlockSize os"
    using inv by (simp add: ctxInv_def)
  have le: "totalRead c \<le> Limit os"
    using inv assms(2) by (simp add: ctxInv_def)
  have crs: "calculateReadSize c = min (effBlockSize os) (Limit os - totalRead c)"
    using inv assms(2) rs by (auto simp: calculateReadSize_def Let_def ctxInv_def min_def)
  have len: "length (fst (rd (src c) (unat (calculateReadSize c)))) \<le> unat (calculateReadSize c)"
    using assms(1) unfolding readerContract_def by blast
  have step: "totalRead c' \<le> Limit os
           \<and> unat (totalRead c') \<le> unat (totalRead c) + unat (calculateReadSize c)"
    if rp: "readAndProcess T rd wr c (calculateReadSize c) = (e, c')" for e c'
  proof -
    obtain bs err s' where r: "rd (src c) (unat (calculateReadSize c)) = (bs, err, s')"
      by (cases "rd (src c) (unat (calculateReadSize c))") auto
    have lb: "length bs \<le> unat (calculateReadSize c)"
      using len r by simp
    have lenb: "length bs \<le> length (buffer c)"
      using lb calculateReadSize_le_buffer [OF inv] by linarith
    note cs = readAndProcess_cases [OF inv r lenb rp]
    have n: "unat (totalRead c + word_of_nat (length bs)) = unat (totalRead c) + length bs"
      by (rule totalRead_step(2) [OF le lb calculateReadSize_le_remaining [OF inv assms(2)]])
    have "totalRead c' = totalRead c \<or> totalRead c' = totalRead c + word_of_nat (length bs)"
      using cs by (auto split: if_splits option.splits)
    then have "unat (totalRead c') \<le> unat (totalRead c) + unat (calculateReadSize c)"
      using n lb by auto
    moreover have "totalRead c' \<le> Limit os"
      using ctxInv_step [OF assms(1) inv rp] assms(2) by (simp add: ctxInv_def)
    ultimately show ?thesis by simp
  qed
  from le crs len step show ?thesis
    by (simp add: minSize_def)
qed

text \<open>The context after the first block of that run.\<close>

theorem C4_totalRead_within_limit_witness:
  "totalRead \<lparr>src = bytes ''lo world'', dst = [bytes ''HEL''],
      opts = \<lparr>From = '''', To = '''', Offset = 0, Limit = 5, BlockSize = 3, Conv = [''upper_case'']\<rparr>,
      buffer = bytes ''hel'', totalRead = 3, trimBuffer = [], hasTrimSpaces = False\<rparr> \<le> (5 :: uint64)
   \<and> calculateReadSize \<lparr>src = bytes ''lo world'', dst = [bytes ''HEL''],
      opts = \<lparr>From = '''', To = '''', Offset = 0, Limit = 5, BlockSize = 3, Conv = [''upper_case'']\<rparr>,
      buffer = bytes ''hel'', totalRead = 3, trimBuffer = [], hasTrimSpaces = False\<rparr> = 2"
proof -
  let ?os = "\<lparr>From = '''', To = '''', Offset = 0, Limit = 5, BlockSize = 3, Conv = [''upper_case'']\<rparr>"
  let ?c0 = "newProcessingContext (bytes ''hello world'') ([] :: byte list list) ?os"
  let ?c1 = "\<lparr>src = bytes ''lo world'', dst = [bytes ''HEL''], opts = ?os,
      buffer = bytes ''hel'', totalRead = 3, trimBuffer = [], hasTrimSpaces = False\<rparr>"
  have a: "calculateReadSize ?c0 \<noteq> minSize"
    by code_simp
  have b: "readAndProcess latin1 bytesRead logWrite ?c0 (calculateReadSize ?c0) = (None, ?c1)"
    by code_simp
  have v: "visits latin1 bytesRead logWrite ?c0 ?c1"
    by (rule visits_next [OF a b visits_here])
  have lim: "0 < Limit ?os" by simp
  have e: "min (effBlockSize ?os) (Limit ?os - totalRead ?c1) = 2"
    by (simp add: effBlockSize_def)
  from C4_totalRead_within_limit [OF sourceOf_contract [OF sourceOf_bytesRead] lim v, of 0]
  have "totalRead ?c1 \<le> Limit ?os
     \<and> calculateReadSize ?c1 = min (effBlockSize ?os) (Limit ?os - totalRead ?c1)"
    by blast
  then show ?thesis
    unfolding e by simp
qed

section \<open>Bytes that come with an error\<close>



section \<open>The deferred write\<close>

lemma readAndProcess_policy:
  assumes "bufferingPolicy os" and "opts c = os"
    and "hasTrimSpaces c = (''trim_spaces'' \<in> set (Conv os))"
    and "readAndProcess T rd wr c k = (e, c')"
  shows "dst c' = dst c \<and> opts c' = os \<and> hasTrimSpaces c' = (''trim_spaces'' \<in> set (Conv os))"
  using assms
  by (auto simp: readAndProcess_def bufferingPolicy_def Let_def split: prod.splits if_splits)

lemma readLoop_policy:
  assumes pol: "bufferingPolicy os"
  shows "opts c = os \<Longrightarrow> hasTrimSpaces c = (''trim_spaces'' \<in> set (Conv os)) \<Longrightarrow>
     readLoop fuel T rd wr c = Some (r, c') \<Longrightarrow> dst c' = dst c"
proof (induction fuel arbitrary: c)
  case 0
  then show ?case by simp
next
  case (Suc fuel)
  show ?case
  proof (cases "calculateReadSize c = minSize")
    case True
    with Suc.prems(3) show ?thesis by simp
  next
    case False
    obtain e c1 where rp: "readAndProcess T rd wr c (calculateReadSize c) = (e, c1)"
      by (cases "readAndProcess T rd wr c (calculateReadSize c)") auto
    note p = readAndProcess_policy [OF pol Suc.prems(1,2) rp]
    show ?thesis
    proof (cases e)
      case None
      with Suc.prems(3) False rp have "readLoop fuel T rd wr c1 = Some (r, c')"
        by (simp add: Let_def)
      with Suc.IH [of c1] p show ?thesis by simp
    next
      case (Some x)
      with Suc.prems(3) False rp have "c' = c1"
        by (auto simp: Let_def split: if_splits)
      with p show ?thesis by simp
    qed
  qed
qed

lemma read_error_never_flushes:
  assumes pol: "bufferingPolicy os"
    and run: "processData fuel T rd wr s d os = Some (Some (Errorf ''read data error'' e), c)"
  shows "dst c = d"
proof -
  let ?c0 = "newProcessingContext s d os"
  have c0: "opts ?c0 = os" "hasTrimSpaces ?c0 = (''trim_spaces'' \<in> set (Conv os))" "dst ?c0 = d"
    by (simp_all add: newProcessingContext_def Let_def)
  from run have "readLoop fuel T rd wr ?c0 = Some (Some (Errorf ''read data error'' e), c)"
    by (auto simp: processData_def Let_def split: option.splits prod.splits)
  from readLoop_policy [OF pol c0(1,2) this] c0(3) show ?thesis by simp
qed

text \<open>
  Claim C1, as amended.  With block size 1 and \<^verbatim>\<open>trim_spaces\<close> among the conversions,
  \<^verbatim>\<open>readAndProcess\<close> appends the bytes of every read to \<^verbatim>\<open>trimBuffer\<close> and leaves the
  writer alone.  When \<^verbatim>\<open>processData\<close> returns without error, \<^verbatim>\<open>trimBuffer\<close> holds all
  that was read from the source, and the writer has received one \<^verbatim>\<open>Write\<close>, of the
  whole of it converted, if it is not empty, and none if it is empty.  When
  \<^verbatim>\<open>processData\<close> returns a read error, with any reader \<open>rd2\<close> at all, the writer has
  received nothing: the buffer is not flushed.  On the input \<^verbatim>\<open>"  hi there  "\<close> with
  the conversion \<^verbatim>\<open>trim_spaces\<close> alone the one write is \<^verbatim>\<open>"hi there"\<close>.
\<close>

theorem C1_deferred_write:
  assumes "sourceOf rd avail" and "bufferingPolicy os"
  shows "(ctxInv os c \<and> rd (src c) (unat k) = (bs, err, s') \<longrightarrow>
            (\<exists>c'. readAndProcess T rd wr c k = (err, c') \<and> dst c' = dst c
                 \<and> trimBuffer c' = trimBuffer c @ bs))
       \<and> (processData fuel T rd wr s d os = Some (None, c1) \<longrightarrow>
            avail s = trimBuffer c1 @ avail (src c1)
            \<and> dst c1 = (if trimBuffer c1 = [] then d
                        else snd (wr d (applyConversions T (trimBuffer c1) (Conv os)))))
       \<and> (processData fuel2 T rd2 wr s2 d os = Some (Some (Errorf ''read data error'' e), c2) \<longrightarrow>
            dst c2 = d)
       \<and> Process 14 T bytesRead logWrite (bytes ''  hi there  '') []
            \<lparr>From = '''', To = '''', Offset = 0, Limit = 0, BlockSize = 1, Conv = [''trim_spaces'']\<rparr>
          = Some (None, [], [bytes ''hi there''])"
proof -
  have step: "\<exists>c'. readAndProcess T rd wr c k = (err, c') \<and> dst c' = dst c
                 \<and> trimBuffer c' = trimBuffer c @ bs"
    if "ctxInv os c" and "rd (src c) (unat k) = (bs, err, s')"
    using that assms(2)
    by (auto simp: readAndProcess_def ctxInv_def bufferingPolicy_def Let_def)
  have run: "avail s = trimBuffer c1 @ avail (src c1)
            \<and> dst c1 = (if trimBuffer c1 = [] then d
                        else snd (wr d (applyConversions T (trimBuffer c1) (Conv os))))"
    if "processData fuel T rd wr s d os = Some (None, c1)"
  proof -
    from processData_success [OF assms(1) that] assms(2)
    obtain blocks where bl: "avail s = concat blocks @ avail (src c1)" "[] \<notin> set blocks"
      "dst c1 = writes wr d (if blocks = [] then [] else [applyConversions T (concat blocks) (Conv os)])"
      "trimBuffer c1 = concat blocks"
      by auto
    have "concat blocks = [] \<longleftrightarrow> blocks = []"
      using bl(2) by (cases blocks) auto
    with bl show ?thesis by auto
  qed
  have abort: "dst c2 = d"
    if "processData fuel2 T rd2 wr s2 d os = Some (Some (Errorf ''read data error'' e), c2)"
    using assms(2) that by (rule read_error_never_flushes)
  have sc: "Process 14 T bytesRead logWrite (bytes ''  hi there  '') []
            \<lparr>From = '''', To = '''', Offset = 0, Limit = 0, BlockSize = 1, Conv = [''trim_spaces'']\<rparr>
          = Some (None, [], [bytes ''hi there''])"
    by code_simp
  from step run abort sc show ?thesis by blast
qed

text \<open>
  The five bytes \<^verbatim>\<open>" a b "\<close> make one write of \<^verbatim>\<open>"a b"\<close>; and when the device fails
  with the second byte of \<^verbatim>\<open>"hi"\<close>, the two bytes are in \<^verbatim>\<open>trimBuffer\<close> and the
  writer has received nothing.
\<close>

theorem C1_deferred_write_witness:
  "processData 6 latin1 bytesRead logWrite (bytes '' a b '') []
      \<lparr>From = '''', To = '''', Offset = 0, Limit = 0, BlockSize = 1, Conv = [''trim_spaces'']\<rparr>
   = Some (None,
      \<lparr>src = [], dst = [bytes ''a b''],
       opts = \<lparr>From = '''', To = '''', Offset = 0, Limit = 0, BlockSize = 1, Conv = [''trim_spaces'']\<rparr>,
       buffer = bytes '' '', totalRead = 5, trimBuffer = bytes '' a b '', hasTrimSpaces = True\<rparr>)
   \<and> [bytes ''a b''] = snd (logWrite [] (applyConversions latin1 (bytes '' a b '') [''trim_spaces'']))
   \<and> processData 2 latin1 brokenRead logWrite (bytes ''hi'') []
      \<lparr>From = '''', To = '''', Offset = 0, Limit = 0, BlockSize = 1, Conv = [''trim_spaces'']\<rparr>
   = Some (Some (Errorf ''read data error'' (IOError ''input/output error'')),
      \<lparr>src = [], dst = [],
       opts = \<lparr>From = '''', To = '''', Offset = 0, Limit = 0, BlockSize = 1, Conv = [''trim_spaces'']\<rparr>,
       buffer = bytes ''i'', totalRead = 2, trimBuffer = bytes ''hi'', hasTrimSpaces = True\<rparr>)"
proof -
  let ?os = "\<lparr>From = '''', To = '''', Offset = 0, Limit = 0, BlockSize = 1, Conv = [''trim_spaces'']\<rparr>"
  let ?c1 = "\<lparr>src = [], dst = [bytes ''a b''], opts = ?os,
       buffer = bytes '' '', totalRead = 5, trimBuffer = bytes '' a b '', hasTrimSpaces = True\<rparr>"
  let ?c2 = "\<lparr>src = ([] :: byte list), dst = ([] :: byte list list), opts = ?os,
       buffer = bytes ''i'', totalRead = 2, trimBuffer = bytes ''hi'', hasTrimSpaces = True\<rparr>"
  have pol: "bufferingPolicy ?os"
    by (simp add: bufferingPolicy_def)
  have run: "processData 6 latin1 bytesRead logWrite (bytes '' a b '') [] ?os = Some (None, ?c1)"
    by code_simp
  have ab: "processData 2 latin1 brokenRead logWrite (bytes ''hi'') [] ?os
     = Some (Some (Errorf ''read data error'' (IOError ''input/output error'')), ?c2)"
    by code_simp
  have ne: "trimBuffer ?c1 \<noteq> []"
    by (simp add: bytes_def)
  note c1 = C1_deferred_write [OF sourceOf_bytesRead pol, where fuel = 6 and T = latin1
      and wr = logWrite and s = "bytes '' a b ''" and d = "[]" and ?c1.0 = ?c1
      and ?fuel2.0 = 2 and ?rd2.0 = brokenRead and ?s2.0 = "bytes ''hi''"
      and e = "IOError ''input/output error''" and ?c2.0 = ?c2]
  from c1 run ne
  have 1: "dst ?c1 = snd (logWrite [] (applyConversions latin1 (trimBuffer ?c1) (Conv ?os)))"
    by simp
  have 2: "dst ?c2 = []"
    by (rule c1 [THEN conjunct2, THEN conjunct2, THEN conjunct1, THEN mp, OF ab])
  from run ab 1 2 show ?thesis by simp
qed

text \<open>
  Claim C1 as it was stated asks for exactly one write at the end of the run.  On the
  empty input the run succeeds and the writer has received no \<^verbatim>\<open>Write\<close> at all:
  \<^verbatim>\<open>finalizeTrimProcessing\<close> tests \<^verbatim>\<open>len(ctx.trimBuffer) > 0\<close>.  And when a read
  fails, here with the second byte of \<^verbatim>\<open>"hi"\<close>, \<^verbatim>\<open>processData\<close> returns the error
  before \<^verbatim>\<open>finalizeTrimProcessing\<close>: the two bytes were accumulated and nothing is
  written.
\<close>

theorem C1_empty_input_counterexample:
  "Process 1 latin1 bytesRead logWrite [] []
      \<lparr>From = '''', To = '''', Offset = 0, Limit = 0, BlockSize = 1, Conv = [''trim_spaces'']\<rparr>
   = Some (None, [], [])
   \<and> Process 2 latin1 brokenRead logWrite (bytes ''hi'') []
      \<lparr>From = '''', To = '''', Offset = 0, Limit = 0, BlockSize = 1, Conv = [''trim_spaces'']\<rparr>
   = Some (Some (Errorf ''read data error'' (IOError ''input/output error'')), [], [])"
  by code_simp

section \<open>Validation\<close>

lemma validateLoop_Inr:
  "validateLoop vs hasUpper hasLower = Inr (u, l) \<Longrightarrow>
     u = (hasUpper \<or> ''upper_case'' \<in> set vs) \<and> l = (hasLower \<or> ''lower_case'' \<in> set vs)"
proof (induction vs arbitrary: hasUpper hasLower)
  case Nil
  then show ?case by simp
next
  case (Cons v vs)
  from Cons.prems show ?case
    by (auto split: if_splits dest: Cons.IH)
qed

lemma validateOptions_both:
  assumes "''upper_case'' \<in> set (Conv os)" and "''lower_case'' \<in> set (Conv os)"
  shows "\<exists>e. validateOptions os = Some e"
proof (cases "validateLoop (Conv os) False False")
  case (Inl e)
  then show ?thesis by (simp add: validateOptions_def)
next
  case (Inr p)
  obtain u l where p: "p = (u, l)" by (cases p)
  from validateLoop_Inr [of "Conv os" False False u l] Inr p assms
  have "u \<and> l" by simp
  with Inr p show ?thesis by (simp add: validateOptions_def)
qed

text \<open>
  Claim C6.  When the conversions hold both \<^verbatim>\<open>upper_case\<close> and \<^verbatim>\<open>lower_case\<close>,
  \<^verbatim>\<open>validateOptions\<close> returns an error, and \<^verbatim>\<open>main\<close> ends with it before the
  pipeline: the reader and the writer are as they were, whatever they are.
\<close>

theorem C6_upper_and_lower_rejected:
  assumes "''upper_case'' \<in> set (Conv os)" and "''lower_case'' \<in> set (Conv os)"
  shows "\<exists>e. validateOptions os = Some e
     \<and> main fuel T rd wr s d os = Some (Some (Errorf ''invalid options'' e), s, d)"
proof -
  from validateOptions_both [OF assms] obtain e where "validateOptions os = Some e" ..
  then show ?thesis by (simp add: main_def)
qed

theorem C6_upper_and_lower_rejected_witness:
  "\<exists>e. validateOptions \<lparr>From = '''', To = '''', Offset = 0, Limit = 0, BlockSize = 0,
            Conv = [''upper_case'', ''lower_case'']\<rparr> = Some e
     \<and> main 0 latin1 bytesRead logWrite (bytes ''hello'') []
          \<lparr>From = '''', To = '''', Offset = 0, Limit = 0, BlockSize = 0,
            Conv = [''upper_case'', ''lower_case'']\<rparr>
        = Some (Some (Errorf ''invalid options'' e), bytes ''hello'', [])"
proof -
  let ?os = "\<lparr>From = '''', To = '''', Offset = 0, Limit = 0, BlockSize = 0,
            Conv = [''upper_case'', ''lower_case'']\<rparr>"
  have u: "''upper_case'' \<in> set (Conv ?os)" by simp
  have l: "''lower_case'' \<in> set (Conv ?os)" by simp
  show ?thesis by (rule C6_upper_and_lower_rejected [OF u l])
qed

section \<open>The skip\<close>

text \<open>
  For an offset from 1 to \<open>2 ^ 63 - 1\<close> and a reader over a source with a content,
  \<^verbatim>\<open>skipBytes\<close> does what is expected of it: when it returns without error it has
  discarded exactly \<open>offset\<close> bytes, and when the source holds fewer it returns an
  error.
\<close>

lemma LimitedReader_Read_props:
  assumes so: "sourceOf rd avail" and N: "0 \<le> N"
    and lr: "LimitedReader_Read rd (R, N) p = (bs, err, (R', N'))"
  shows "avail R = bs @ avail R' \<and> N' = N - int (length bs) \<and> 0 \<le> N'
     \<and> (err = Some EOF \<longrightarrow> N' = 0 \<or> avail R' = [])"
proof (cases "N \<le> 0")
  case True
  with lr N show ?thesis
    by (auto simp: LimitedReader_Read_def)
next
  case False
  let ?p = "if N < int p then nat N else p"
  obtain bs0 e0 R0 where r: "rd R ?p = (bs0, e0, R0)"
    by (cases "rd R ?p") auto
  note sr = sourceOf_read [OF so r]
  from lr False r have eq: "bs = bs0" "err = e0" "R' = R0" "N' = N - int (length bs0)"
    by (auto simp: LimitedReader_Read_def Let_def)
  have "int (length bs0) \<le> N"
    using sr(1) False by (auto split: if_splits)
  with sr eq show ?thesis by auto
qed

lemma discard_ReadFrom_props:
  assumes so: "sourceOf rd avail"
  shows "0 \<le> N \<Longrightarrow> discard_ReadFrom fuel rd (R, N) n = Some (written, err, (R', N')) \<Longrightarrow>
    \<exists>bs. avail R = bs @ avail R' \<and> written = n + int (length bs) \<and> N' = N - int (length bs)
       \<and> 0 \<le> N' \<and> (err = None \<longrightarrow> N' = 0 \<or> avail R' = [])"
proof (induction fuel arbitrary: R N n)
  case 0
  then show ?case by simp
next
  case (Suc fuel)
  obtain bs e R1 N1 where lr: "LimitedReader_Read rd (R, N) 8192 = (bs, e, (R1, N1))"
    by (cases "LimitedReader_Read rd (R, N) 8192") auto
  note p = LimitedReader_Read_props [OF so Suc.prems(1) lr]
  show ?case
  proof (cases e)
    case None
    with Suc.prems(2) lr have "discard_ReadFrom fuel rd (R1, N1) (n + int (length bs)) = Some (written, err, (R', N'))"
      by (simp add: Let_def)
    from Suc.IH [OF _ this] p obtain bs' where
      "avail R1 = bs' @ avail R'" "written = n + int (length bs) + int (length bs')"
      "N' = N1 - int (length bs')" "0 \<le> N'" "err = None \<longrightarrow> N' = 0 \<or> avail R' = []"
      by auto
    with p show ?thesis
      by (intro exI [of _ "bs @ bs'"]) auto
  next
    case (Some x)
    with Suc.prems(2) lr have r: "written = n + int (length bs)" "R' = R1" "N' = N1"
      "err = (if x = EOF then None else Some x)"
      by (auto simp: Let_def split: if_splits)
    with p Some show ?thesis
      by (intro exI [of _ bs]) auto
  qed
qed

lemma skipBytes_in_range:
  assumes so: "sourceOf rd avail" and pos: "0 < offset" and small: "offset < 2 ^ 63"
    and sk: "skipBytes fuel rd s offset = Some (e, s')"
  shows "(e = None \<longrightarrow> unat offset \<le> length (avail s) \<and> avail s' = drop (unat offset) (avail s))
     \<and> (length (avail s) < unat offset \<longrightarrow> e \<noteq> None)"
proof -
  have "uint offset < 2 ^ 63"
    using small by (simp add: word_less_def)
  moreover have "- (2 ^ 63) \<le> uint offset"
  proof -
    have "- (2 ^ 63) \<le> (0 :: int)" by simp
    also have "0 \<le> uint offset" by simp
    finally show ?thesis .
  qed
  ultimately have "signed_take_bit 63 (uint offset) = uint offset"
    by (intro signed_take_bit_int_eq_self)
  then have si: "sint offset = int (unat offset)"
    by (simp add: sint_uint)
  have n0: "0 \<le> sint offset" using si by simp
  from sk pos obtain written err where
    c: "io_CopyN fuel rd s (sint offset) = Some (written, err, s')" "e = map_option (Errorf ''can't skip offset'') err"
    by (auto simp: skipBytes_def split: option.splits prod.splits)
  from c(1) obtain w0 e0 N' where
    d: "discard_ReadFrom fuel rd (s, sint offset) 0 = Some (w0, e0, (s', N'))"
    and r: "err = (if w0 = sint offset then None else if w0 < sint offset \<and> e0 = None then Some EOF else e0)"
    by (auto simp: io_CopyN_def split: option.splits prod.splits if_splits)
  from discard_ReadFrom_props [OF so n0 d] obtain bs where
    b: "avail s = bs @ avail s'" "w0 = int (length bs)" "N' = sint offset - int (length bs)"
      "0 \<le> N'" "e0 = None \<longrightarrow> N' = 0 \<or> avail s' = []"
    by auto
  have 1: "e = None \<Longrightarrow> unat offset \<le> length (avail s) \<and> avail s' = drop (unat offset) (avail s)"
  proof -
    assume "e = None"
    with c(2) r have "w0 = sint offset \<or> (e0 = None \<and> \<not> w0 < sint offset)"
      by (auto split: if_splits)
    with b(2,3,4) have "int (length bs) = sint offset"
      by auto
    with si have "int (length bs) = int (unat offset)"
      by (simp only:)
    then have "length bs = unat offset"
      by (simp only: int_int_eq)
    with b(1) show ?thesis by auto
  qed
  have 2: "length (avail s) < unat offset \<Longrightarrow> e \<noteq> None"
    using 1 by auto
  from 1 2 show ?thesis by blast
qed

lemma skipBytes_zero: "skipBytes fuel rd s 0 = Some (None, s)"
  by (simp add: skipBytes_def)

text \<open>
  Claim C7 says that for an offset above 0 the skip discards exactly that many bytes
  and fails when the source ends before.  The code does not do so for an offset of
  \<open>2 ^ 63\<close> or more: \<^verbatim>\<open>int64(offset)\<close> is then negative, \<^verbatim>\<open>io.CopyN\<close> copies nothing
  and returns no error, so \<^verbatim>\<open>skipBytes\<close> succeeds with the source untouched, whatever
  the reader, and the run on the five bytes \<^verbatim>\<open>hello\<close> writes them all and succeeds.
\<close>

theorem C7_offset_beyond_int64:
  "skipBytes (Suc fuel) rd s (2 ^ 63) = Some (None, s)
   \<and> Process 3 T bytesRead logWrite (bytes ''hello'') []
        \<lparr>From = '''', To = '''', Offset = 2 ^ 63, Limit = 0, BlockSize = 0, Conv = []\<rparr>
      = Some (None, [], [bytes ''hello''])"
proof -
  have "sint (2 ^ 63 :: uint64) = - (2 ^ 63)"
    by simp
  then have "skipBytes (Suc fuel) rd s (2 ^ 63) = Some (None, s)"
    by (simp add: skipBytes_def io_CopyN_def LimitedReader_Read_def)
  moreover have "Process 3 T bytesRead logWrite (bytes ''hello'') []
        \<lparr>From = '''', To = '''', Offset = 2 ^ 63, Limit = 0, BlockSize = 0, Conv = []\<rparr>
      = Some (None, [], [bytes ''hello''])"
    by code_simp
  ultimately show ?thesis by simp
qed

section \<open>Upper and lower case\<close>

lemma uint_upByte: "isLowerByte c \<Longrightarrow> uint (c - 0x20) = uint c - 0x20"
  using uint_sub_lem [of "0x20" c] by (simp add: isLowerByte_def)

lemma uint_lowByte: "isUpperByte c \<Longrightarrow> uint (c + 0x20) = uint c + 0x20"
  using uint_add_lem [of c "0x20"] by (simp add: isUpperByte_def)

lemma upByte_not_lower: "\<not> isLowerByte (upByte c)"
  by (auto simp: upByte_def isLowerByte_def uint_upByte [unfolded isLowerByte_def])

lemma lowByte_not_upper: "\<not> isUpperByte (lowByte c)"
  by (auto simp: lowByte_def isUpperByte_def uint_lowByte [unfolded isUpperByte_def])

lemma upByte_ascii: "uint c < 0x80 \<Longrightarrow> uint (upByte c) < 0x80"
  by (auto simp: upByte_def uint_upByte)

lemma lowByte_ascii: "uint c < 0x80 \<Longrightarrow> uint (lowByte c) < 0x80"
  by (auto simp: lowByte_def uint_lowByte isUpperByte_def)

lemma lowByte_upByte: "isLowerByte c \<or> isUpperByte c \<Longrightarrow> lowByte (upByte c) = lowByte c"
proof -
  have "isLowerByte c \<Longrightarrow> isUpperByte (c - 0x20)"
    by (simp add: isUpperByte_def uint_upByte) (simp add: isLowerByte_def)
  moreover have "isLowerByte c \<Longrightarrow> \<not> isUpperByte c"
    by (simp add: isLowerByte_def isUpperByte_def)
  ultimately show "isLowerByte c \<or> isUpperByte c \<Longrightarrow> lowByte (upByte c) = lowByte c"
    by (auto simp: lowByte_def upByte_def)
qed

lemma ToUpper_ascii: "isASCII s \<Longrightarrow> strings_ToUpper tbl s = map upByte s"
  by (auto simp: strings_ToUpper_def upByte_def list_ex_iff intro: map_idI [symmetric])

lemma ToLower_ascii: "isASCII s \<Longrightarrow> strings_ToLower tbl s = map lowByte s"
  by (auto simp: strings_ToLower_def lowByte_def list_ex_iff intro: map_idI [symmetric])

lemma isASCII_map_upByte: "isASCII s \<Longrightarrow> isASCII (map upByte s)"
  by (auto simp: isASCII_def list_all_iff upByte_ascii)

lemma isASCII_map_lowByte: "isASCII s \<Longrightarrow> isASCII (map lowByte s)"
  by (auto simp: isASCII_def list_all_iff lowByte_ascii)

lemma letters_ascii: "list_all isLetterByte s \<Longrightarrow> isASCII s"
  by (auto simp: isASCII_def list_all_iff isLetterByte_def isUpperByte_def isLowerByte_def)

text \<open>
  Claim C9.  On an input of ASCII letters alone, \<^verbatim>\<open>upperCase\<close> and then \<^verbatim>\<open>lowerCase\<close>
  give what \<^verbatim>\<open>lowerCase\<close> gives on the input itself, and that is the input with every
  upper-case letter replaced by its lower-case letter.
\<close>

theorem C9_upper_then_lower:
  assumes "list_all isLetterByte data"
  shows "lowerCase T (upperCase T data) = lowerCase T data
     \<and> lowerCase T data = map (\<lambda>c. if isUpperByte c then c + 0x20 else c) data"
proof -
  have a: "isASCII data"
    using assms by (rule letters_ascii)
  have u: "upperCase T data = map upByte data"
    using a by (simp add: upperCase_def ToUpper_ascii)
  have l: "lowerCase T data = map lowByte data"
    using a by (simp add: lowerCase_def ToLower_ascii)
  have "lowerCase T (upperCase T data) = map lowByte (map upByte data)"
    using a by (simp add: u lowerCase_def ToLower_ascii isASCII_map_upByte)
  also have "\<dots> = map lowByte data"
    using assms by (auto simp: list_all_iff isLetterByte_def lowByte_upByte)
  finally show ?thesis
    using l by (simp add: lowByte_def [abs_def])
qed

theorem C9_upper_then_lower_witness:
  "lowerCase latin1 (upperCase latin1 (bytes ''HeLLo'')) = bytes ''hello''
   \<and> lowerCase latin1 (bytes ''HeLLo'') = bytes ''hello''"
proof -
  have l: "list_all isLetterByte (bytes ''HeLLo'')"
    by code_simp
  have m: "map (\<lambda>c. if isUpperByte c then c + 0x20 else c) (bytes ''HeLLo'') = bytes ''hello''"
    by code_simp
  from C9_upper_then_lower [OF l, of latin1] show ?thesis
    unfolding m by simp
qed

section \<open>UTF-8\<close>

lemma list4_cases:
  obtains "s = []" | b0 where "s = [b0]" | b0 b1 where "s = [b0, b1]"
  | b0 b1 b2 where "s = [b0, b1, b2]" | b0 b1 b2 b3 rest where "s = b0 # b1 # b2 # b3 # rest"
proof (cases s)
  case Nil
  then show ?thesis using that by simp
next
  case c1: (Cons b0 s1)
  show ?thesis
  proof (cases s1)
    case Nil
    with c1 show ?thesis using that by simp
  next
    case c2: (Cons b1 s2)
    show ?thesis
    proof (cases s2)
      case Nil
      with c1 c2 show ?thesis using that by simp
    next
      case c3: (Cons b2 s3)
      show ?thesis
      proof (cases s3)
        case Nil
        with c1 c2 c3 show ?thesis using that by simp
      next
        case (Cons b3 rest)
        with c1 c2 c3 show ?thesis using that by simp
      qed
    qed
  qed
qed

lemmas dec_defs = seqLen_def acceptLo_def acceptHi_def Let_def

lemma DR_ascii: "uint b0 < 0x80 \<Longrightarrow> DecodeRune (b0 # rest) = (uint b0, 1)"
  by (simp add: seqLen_def Let_def)

lemma DR_bad: "0x80 \<le> uint b0 \<Longrightarrow> uint b0 < 0xC2 \<or> 0xF4 < uint b0 \<Longrightarrow> DecodeRune (b0 # rest) = (RuneError, 1)"
  by (auto simp: seqLen_def Let_def)

lemma DR_lone: "0x80 \<le> uint b0 \<Longrightarrow> DecodeRune [b0] = (RuneError, 1)"
  by (simp add: seqLen_def Let_def)

lemma DR_nocont:
  "0x80 \<le> uint b0 \<Longrightarrow> uint b1 < 0x80 \<or> 0xBF < uint b1 \<Longrightarrow> DecodeRune (b0 # b1 # rest) = (RuneError, 1)"
  by (auto simp: dec_defs)

lemma DR_2:
  "0xC2 \<le> uint b0 \<Longrightarrow> uint b0 \<le> 0xDF \<Longrightarrow>
   DecodeRune (b0 # b1 # rest) =
     (if 0x80 \<le> uint b1 \<and> uint b1 \<le> 0xBF then ((uint b0 - 0xC0) * 64 + (uint b1 - 0x80), 2)
      else (RuneError, 1))"
  by (auto simp: dec_defs)

lemma DR_3_short:
  "0xE0 \<le> uint b0 \<Longrightarrow> uint b0 \<le> 0xEF \<Longrightarrow> DecodeRune [b0, b1] = (RuneError, 1)"
  by (simp add: dec_defs)

lemma DR_3:
  "0xE0 \<le> uint b0 \<Longrightarrow> uint b0 \<le> 0xEF \<Longrightarrow>
   DecodeRune (b0 # b1 # b2 # rest) =
     (if acceptLo (uint b0) \<le> uint b1 \<and> uint b1 \<le> acceptHi (uint b0)
         \<and> 0x80 \<le> uint b2 \<and> uint b2 \<le> 0xBF
      then ((uint b0 - 0xE0) * 4096 + (uint b1 - 0x80) * 64 + (uint b2 - 0x80), 3)
      else (RuneError, 1))"
  by (simp add: seqLen_def Let_def)

lemma DR_4_short2:
  "0xF0 \<le> uint b0 \<Longrightarrow> uint b0 \<le> 0xF4 \<Longrightarrow> DecodeRune [b0, b1] = (RuneError, 1)"
  by (simp add: dec_defs)

lemma DR_4_short3:
  "0xF0 \<le> uint b0 \<Longrightarrow> uint b0 \<le> 0xF4 \<Longrightarrow> DecodeRune [b0, b1, b2] = (RuneError, 1)"
  by (simp add: dec_defs)

lemma DR_4:
  "0xF0 \<le> uint b0 \<Longrightarrow> uint b0 \<le> 0xF4 \<Longrightarrow>
   DecodeRune (b0 # b1 # b2 # b3 # rest) =
     (if acceptLo (uint b0) \<le> uint b1 \<and> uint b1 \<le> acceptHi (uint b0)
         \<and> 0x80 \<le> uint b2 \<and> uint b2 \<le> 0xBF \<and> 0x80 \<le> uint b3 \<and> uint b3 \<le> 0xBF
      then ((uint b0 - 0xF0) * 262144 + (uint b1 - 0x80) * 4096 + (uint b2 - 0x80) * 64
              + (uint b3 - 0x80), 4)
      else (RuneError, 1))"
  by (simp add: seqLen_def Let_def)


lemma RuneStart_lead: "uint b < 0x80 \<or> 0xC0 \<le> uint b \<Longrightarrow> RuneStart b"
  by (auto simp: RuneStart_def)

lemma DecodeRune_inv:
  assumes d: "DecodeRune s = (r, w)"
  obtains (empty) "s = []" "r = RuneError" "w = 0"
  | (invalid) b0 rest where "s = b0 # rest" "0x80 \<le> uint b0" "r = RuneError" "w = 1"
  | (ok) pre rest where "s = pre @ rest" "length pre = w" "1 \<le> w" "RuneStart (hd pre)"
      "\<And>x. DecodeRune (pre @ x) = (r, w)" "uint (hd pre) < 0x80 \<longrightarrow> w = 1 \<and> r = uint (hd pre)"
proof (cases s)
  case Nil
  with d show ?thesis by (intro empty) simp_all
next
  case s: (Cons b0 s1)
  consider (a) "uint b0 < 0x80" | (b) "0x80 \<le> uint b0" "uint b0 < 0xC2 \<or> 0xF4 < uint b0"
    | (c2) "0xC2 \<le> uint b0" "uint b0 \<le> 0xDF" | (c3) "0xE0 \<le> uint b0" "uint b0 \<le> 0xEF"
    | (c4) "0xF0 \<le> uint b0" "uint b0 \<le> 0xF4"
    by linarith
  then show ?thesis
  proof cases
    case a
    from d have "r = uint b0" "w = 1"
      by (simp_all add: s DR_ascii [OF a] del: DecodeRune.simps)
    then show ?thesis
      using a by (intro ok [of "[b0]" s1]) (simp_all add: s DR_ascii RuneStart_lead del: DecodeRune.simps)
  next
    case b
    from d have "r = RuneError" "w = 1"
      by (simp_all add: s DR_bad [OF b] del: DecodeRune.simps)
    then show ?thesis
      using b(1) by (intro invalid [of b0 s1]) (simp_all add: s)
  next
    case c2
    show ?thesis
    proof (cases s1)
      case Nil
      from d have "r = RuneError" "w = 1"
        using c2 by (simp_all add: s Nil DR_lone del: DecodeRune.simps)
      then show ?thesis
        using c2 by (intro invalid [of b0 s1]) (simp_all add: s)
    next
      case (Cons b1 s2)
      show ?thesis
      proof (cases "0x80 \<le> uint b1 \<and> uint b1 \<le> 0xBF")
        case True
        from d have "r = (uint b0 - 0xC0) * 64 + (uint b1 - 0x80)" "w = 2"
          using True by (simp_all add: s Cons DR_2 [OF c2] del: DecodeRune.simps)
        then show ?thesis
          using True c2
          by (intro ok [of "[b0, b1]" s2])
             (simp_all add: s Cons DR_2 [OF c2] RuneStart_lead del: DecodeRune.simps)
      next
        case False
        from d have "r = RuneError" "w = 1"
          using False by (simp_all add: s Cons DR_2 [OF c2] del: DecodeRune.simps)
        then show ?thesis
          using c2 by (intro invalid [of b0 s1]) (simp_all add: s)
      qed
    qed
  next
    case c3
    have short: "length s1 < 2 \<Longrightarrow> DecodeRune s = (RuneError, 1)"
      using c3 by (cases s1 rule: list4_cases) (simp_all add: s DR_lone DR_3_short del: DecodeRune.simps)
    show ?thesis
    proof (cases "length s1 < 2")
      case True
      from d short [OF True] have "r = RuneError" "w = 1" by simp_all
      then show ?thesis
        using c3 by (intro invalid [of b0 s1]) (simp_all add: s)
    next
      case False
      then obtain b1 b2 s3 where s1: "s1 = b1 # b2 # s3"
        by (cases s1 rule: list4_cases) auto
      show ?thesis
      proof (cases "acceptLo (uint b0) \<le> uint b1 \<and> uint b1 \<le> acceptHi (uint b0)
         \<and> 0x80 \<le> uint b2 \<and> uint b2 \<le> 0xBF")
        case True
        from d have "r = (uint b0 - 0xE0) * 4096 + (uint b1 - 0x80) * 64 + (uint b2 - 0x80)" "w = 3"
          using True by (simp_all add: s s1 DR_3 [OF c3] del: DecodeRune.simps)
        then show ?thesis
          using True c3
          by (intro ok [of "[b0, b1, b2]" s3])
             (simp_all add: s s1 DR_3 [OF c3] RuneStart_lead del: DecodeRune.simps)
      next
        case False
        from d have "r = RuneError" "w = 1"
          using False by (simp_all add: s s1 DR_3 [OF c3] del: DecodeRune.simps)
        then show ?thesis
          using c3 by (intro invalid [of b0 s1]) (simp_all add: s)
      qed
    qed
  next
    case c4
    have short: "length s1 < 3 \<Longrightarrow> DecodeRune s = (RuneError, 1)"
      using c4 by (cases s1 rule: list4_cases)
        (simp_all add: s DR_lone DR_4_short2 DR_4_short3 del: DecodeRune.simps)
    show ?thesis
    proof (cases "length s1 < 3")
      case True
      from d short [OF True] have "r = RuneError" "w = 1" by simp_all
      then show ?thesis
        using c4 by (intro invalid [of b0 s1]) (simp_all add: s)
    next
      case False
      then obtain b1 b2 b3 s4 where s1: "s1 = b1 # b2 # b3 # s4"
        by (cases s1 rule: list4_cases) auto
      show ?thesis
      proof (cases "acceptLo (uint b0) \<le> uint b1 \<and> uint b1 \<le> acceptHi (uint b0)
         \<and> 0x80 \<le> uint b2 \<and> uint b2 \<le> 0xBF \<and> 0x80 \<le> uint b3 \<and> uint b3 \<le> 0xBF")
        case True
        from d have "r = (uint b0 - 0xF0) * 262144 + (uint b1 - 0x80) * 4096 + (uint b2 - 0x80) * 64
              + (uint b3 - 0x80)" "w = 4"
          using True by (simp_all add: s s1 DR_4 [OF c4] del: DecodeRune.simps)
        then show ?thesis
          using True c4
          by (intro ok [of "[b0, b1, b2, b3]" s4])
             (simp_all add: s s1 DR_4 [OF c4] RuneStart_lead del: DecodeRune.simps)
      next
        case False
        from d have "r = RuneError" "w = 1"
          using False by (simp_all add: s s1 DR_4 [OF c4] del: DecodeRune.simps)
        then show ?thesis
          using c4 by (intro invalid [of b0 s1]) (simp_all add: s)
      qed
    qed
  qed
qed

lemma uint_byte: "0 \<le> k \<Longrightarrow> k < 256 \<Longrightarrow> uint (word_of_int k :: byte) = k"
  by (simp add: uint_word_of_int take_bit_int_eq_self)

lemma uint_byte_bounds: "0 \<le> uint (b :: byte)" "uint (b :: byte) < 256"
  using uint_lt2p [of b] by simp_all

lemma DecodeRune_1: "uint b0 < 0x80 \<Longrightarrow> DecodeRune (b0 # rest) = (uint b0, 1)"
  by (simp add: seqLen_def Let_def)

lemma DecodeRune_2:
  assumes "uint b0 = 0xC0 + q" "2 \<le> q" "q \<le> 31" "uint b1 = 0x80 + m" "0 \<le> m" "m < 64"
  shows "DecodeRune (b0 # b1 # rest) = (q * 64 + m, 2)"
  using assms by (simp add: seqLen_def acceptLo_def acceptHi_def Let_def)

lemma DecodeRune_3:
  assumes "uint b0 = 0xE0 + q" "0 \<le> q" "q \<le> 15" "uint b1 = 0x80 + m1" "0 \<le> m1" "m1 < 64"
    "uint b2 = 0x80 + m" "0 \<le> m" "m < 64" "q = 0 \<longrightarrow> 32 \<le> m1" "q = 13 \<longrightarrow> m1 < 32"
  shows "DecodeRune (b0 # b1 # b2 # rest) = (q * 4096 + m1 * 64 + m, 3)"
  using assms by (auto simp: seqLen_def acceptLo_def acceptHi_def Let_def)

lemma DecodeRune_4:
  assumes "uint b0 = 0xF0 + q" "0 \<le> q" "q \<le> 4" "uint b1 = 0x80 + m2" "0 \<le> m2" "m2 < 64"
    "uint b2 = 0x80 + m1" "0 \<le> m1" "m1 < 64" "uint b3 = 0x80 + m" "0 \<le> m" "m < 64"
    "q = 0 \<longrightarrow> 16 \<le> m2" "q = 4 \<longrightarrow> m2 < 16"
  shows "DecodeRune (b0 # b1 # b2 # b3 # rest) = (q * 262144 + m2 * 4096 + m1 * 64 + m, 4)"
  using assms by (auto simp: seqLen_def acceptLo_def acceptHi_def Let_def)

lemma split64: "\<exists>q m. (r :: int) = 64 * q + m \<and> 0 \<le> m \<and> m < 64 \<and> q = r div 64 \<and> m = r mod 64"
  by (intro exI [of _ "r div 64"] exI [of _ "r mod 64"]) simp


lemma DecodeRune_EncodeRune:
  assumes "validRune r"
  shows "DecodeRune (EncodeRune r @ rest) = (r, length (EncodeRune r))"
proof -
  obtain q1 m0 where r: "r = 64 * q1 + m0" "0 \<le> m0" "m0 < 64" "q1 = r div 64" "m0 = r mod 64"
    using split64 [of r] by blast
  obtain q2 m1 where q1: "q1 = 64 * q2 + m1" "0 \<le> m1" "m1 < 64" "q2 = q1 div 64" "m1 = q1 mod 64"
    using split64 [of q1] by blast
  obtain q3 m2 where q2: "q2 = 64 * q3 + m2" "0 \<le> m2" "m2 < 64" "q3 = q2 div 64" "m2 = q2 mod 64"
    using split64 [of q2] by blast
  have d2: "r div 4096 = q2"
    using r(4) q1(4) by (simp add: zdiv_zmult2_eq [of 64 r 64, simplified])
  have d3: "r div 262144 = q3"
    using d2 q2(4) zdiv_zmult2_eq [of 64 r 4096] by simp
  have d2m: "(r div 4096) mod 64 = m2"
    using d2 q2(5) by simp
  have d1m: "(r div 64) mod 64 = m1"
    using r(4) q1(5) by simp
  have v2: "q1 * 64 + m0 = r"
    using r(1) by simp
  have v3: "q2 * 4096 + m1 * 64 + m0 = r"
    using r(1) q1(1) by simp
  have v4: "q3 * 262144 + m2 * 4096 + m1 * 64 + m0 = r"
    using r(1) q1(1) q2(1) by simp
  consider "r \<le> 0x7F" | "0x80 \<le> r" "r \<le> 0x7FF" | "0x800 \<le> r" "r \<le> 0xFFFF" | "0x10000 \<le> r"
    by linarith
  then show ?thesis
  proof cases
    case 1
    with assms have e: "EncodeRune r = [word_of_int r]"
      by (simp add: EncodeRune_def validRune_def)
    have "uint (word_of_int r :: byte) = r"
      using 1 assms by (intro uint_byte) (simp_all add: validRune_def)
    then show ?thesis
      using 1 DecodeRune_1 [of "word_of_int r" rest] by (simp add: e del: DecodeRune.simps)
  next
    case 2
    with assms have e: "EncodeRune r = [word_of_int (0xC0 + q1), word_of_int (0x80 + m0)]"
      by (simp add: EncodeRune_def validRune_def r(4,5) del: of_int_add)
    have b: "2 \<le> q1" "q1 \<le> 31"
      using 2 r(1-3) by linarith+
    have "DecodeRune (word_of_int (0xC0 + q1) # word_of_int (0x80 + m0) # rest) = (q1 * 64 + m0, 2)"
      using b r(2,3) by (intro DecodeRune_2 uint_byte) simp_all
    then show ?thesis
      by (simp add: e v2 del: DecodeRune.simps of_int_add)
  next
    case 3
    with assms have e: "EncodeRune r = [word_of_int (0xE0 + q2), word_of_int (0x80 + m1), word_of_int (0x80 + m0)]"
      by (auto simp add: EncodeRune_def validRune_def d2 d1m r(5) simp del: of_int_add)
    have b: "0 \<le> q2" "q2 \<le> 15" "q2 = 0 \<longrightarrow> 32 \<le> m1" "q2 = 13 \<longrightarrow> m1 < 32"
      using 3 assms r(1-3) q1(1-3) by (auto simp: validRune_def)
    have "DecodeRune (word_of_int (0xE0 + q2) # word_of_int (0x80 + m1) # word_of_int (0x80 + m0) # rest)
        = (q2 * 4096 + m1 * 64 + m0, 3)"
      using b r(2,3) q1(2,3) by (intro DecodeRune_3 uint_byte) simp_all
    then show ?thesis
      by (simp add: e v3 del: DecodeRune.simps of_int_add)
  next
    case 4
    with assms have e: "EncodeRune r = [word_of_int (0xF0 + q3), word_of_int (0x80 + m2),
         word_of_int (0x80 + m1), word_of_int (0x80 + m0)]"
      by (auto simp add: EncodeRune_def validRune_def d3 d2m d1m r(5) simp del: of_int_add)
    have b: "0 \<le> q3" "q3 \<le> 4" "q3 = 0 \<longrightarrow> 16 \<le> m2" "q3 = 4 \<longrightarrow> m2 < 16"
      using 4 assms r(1-3) q1(1-3) q2(1-3) by (auto simp: validRune_def)
    have "DecodeRune (word_of_int (0xF0 + q3) # word_of_int (0x80 + m2) # word_of_int (0x80 + m1)
           # word_of_int (0x80 + m0) # rest)
        = (q3 * 262144 + m2 * 4096 + m1 * 64 + m0, 4)"
      using b r(2,3) q1(2,3) q2(2,3) by (intro DecodeRune_4 uint_byte) simp_all
    then show ?thesis
      by (simp add: e v4 del: DecodeRune.simps of_int_add)
  qed
qed

lemma DecodeRune_valid: "validRune (fst (DecodeRune s))"
proof (cases s)
  case Nil
  then show ?thesis by (simp add: validRune_def RuneError_def)
next
  case (Cons b0 rest)
  have b: "0 \<le> uint b0" by simp
  show ?thesis
    unfolding Cons using b
    by (auto simp: validRune_def RuneError_def seqLen_def acceptLo_def acceptHi_def Let_def
             split: if_splits)
qed

lemma EncodeRune_length: "1 \<le> length (EncodeRune r)"
  by (simp add: EncodeRune_def)

lemma decodeAll_EncodeRune:
  assumes "validRune r"
  shows "decodeAll (EncodeRune r @ rest) = r # decodeAll rest"
proof -
  obtain b bs where e: "EncodeRune r = b # bs"
    using EncodeRune_length [of r] by (cases "EncodeRune r") auto
  have d: "DecodeRune (b # bs @ rest) = (r, Suc (length bs))"
    using DecodeRune_EncodeRune [OF assms, of rest] by (simp add: e del: DecodeRune.simps)
  show ?thesis
    using d by (simp add: e del: DecodeRune.simps)
qed

lemma decodeAll_concat_EncodeRune:
  "list_all validRune rs \<Longrightarrow> decodeAll (concat (map EncodeRune rs) @ rest) = rs @ decodeAll rest"
  by (induction rs) (simp_all add: decodeAll_EncodeRune del: decodeAll.simps)

lemma decodeAll_valid: "list_all validRune (decodeAll s)"
proof (induction s rule: decodeAll.induct)
  case 1
  then show ?case by simp
next
  case (2 b bs)
  obtain r w where d: "DecodeRune (b # bs) = (r, w)"
    by (cases "DecodeRune (b # bs)") auto
  have "validRune r"
    using DecodeRune_valid [of "b # bs"] d by (simp del: DecodeRune.simps)
  moreover have "list_all validRune (decodeAll (drop (w - 1) bs))"
    using 2 [OF d [symmetric]] by simp
  ultimately show ?case
    using d by (simp del: DecodeRune.simps)
qed

lemma strings_Map_valid:
  assumes "caseMapOK f"
  shows "strings_Map f s = concat (map EncodeRune (map f (decodeAll s)))"
proof -
  have "\<And>c. c \<in> set (decodeAll s) \<Longrightarrow> 0 \<le> f c"
    using assms decodeAll_valid [of s] by (auto simp: caseMapOK_def list_all_iff validRune_def)
  then show ?thesis
    by (simp add: strings_Map_def Let_def cong: map_cong)
qed

lemma strings_Map_idem:
  assumes "caseMapOK f"
  shows "strings_Map f (strings_Map f s) = strings_Map f s"
proof -
  have v: "list_all validRune (map f (decodeAll s))"
    using assms decodeAll_valid [of s] by (auto simp: caseMapOK_def list_all_iff)
  have d: "decodeAll (strings_Map f s) = map f (decodeAll s)"
    using decodeAll_concat_EncodeRune [OF v, of "[]"] by (simp add: strings_Map_valid [OF assms])
  have m: "map f (map f (decodeAll s)) = map f (decodeAll s)"
    using assms decodeAll_valid [of s] by (auto simp: caseMapOK_def list_all_iff)
  have "strings_Map f (strings_Map f s) = concat (map EncodeRune (map f (decodeAll (strings_Map f s))))"
    by (rule strings_Map_valid [OF assms])
  also have "\<dots> = concat (map EncodeRune (map f (decodeAll s)))"
    unfolding d m ..
  also have "\<dots> = strings_Map f s"
    by (rule strings_Map_valid [OF assms, symmetric])
  finally show ?thesis .
qed

lemma decodeAll_ascii: "isASCII s \<Longrightarrow> decodeAll s = map uint s"
  by (induction s) (simp_all add: isASCII_def seqLen_def Let_def)

lemma EncodeRune_ascii: "uint (c :: byte) < 0x80 \<Longrightarrow> EncodeRune (uint c) = [c]"
  by (simp add: EncodeRune_def)

section \<open>White space\<close>

lemma not_IsSpace_RuneError [simp]: "\<not> IsSpace RuneError"
  by (simp add: IsSpace_def RuneError_def)

lemma IsSpace_ascii: "uint c < 0x80 \<Longrightarrow> IsSpace (uint c) = asciiSpace c"
  by (auto simp: IsSpace_def asciiSpace_def word_uint_eq_iff)

lemma DecodeRune_stable:
  assumes "DecodeRune s = (r, w)" and "r \<noteq> RuneError"
  shows "DecodeRune (take w s @ x) = (r, w)"
  using assms(1)
proof (cases rule: DecodeRune_inv)
  case empty
  with assms(2) show ?thesis by simp
next
  case (invalid b0 rest)
  with assms(2) show ?thesis by simp
next
  case (ok pre rest)
  then show ?thesis by (simp del: DecodeRune.simps)
qed

lemma DecodeRune_width:
  assumes "DecodeRune s = (r, w)" and "s \<noteq> []"
  shows "1 \<le> w \<and> w \<le> length s"
  using assms(1)
proof (cases rule: DecodeRune_inv)
  case empty
  with assms(2) show ?thesis by simp
next
  case (invalid b0 rest)
  then show ?thesis by simp
next
  case (ok pre rest)
  then show ?thesis by auto
qed

lemma DecodeRune_ext:
  assumes "DecodeRune e = (r, w)" and "length e = w" and "1 \<le> w"
    and "suf = [] \<or> RuneStart (hd suf)"
  shows "DecodeRune (e @ suf) = (r, w)"
  using assms(1)
proof (cases rule: DecodeRune_inv)
  case empty
  with assms(3) show ?thesis by simp
next
  case (invalid b0 rest)
  with assms(2) have e: "e = [b0]" by simp
  show ?thesis
  proof (cases suf)
    case Nil
    with assms(1) show ?thesis by (simp del: DecodeRune.simps)
  next
    case (Cons b1 suf')
    with assms(4) have "uint b1 < 0x80 \<or> 0xBF < uint b1"
      by (auto simp: RuneStart_def)
    with invalid(2) show ?thesis
      by (simp add: e Cons invalid(3,4) DR_nocont del: DecodeRune.simps)
  qed
next
  case (ok pre rest)
  with assms(2) have "pre = e" by simp
  with ok(5) show ?thesis by simp
qed

lemma DecodeRune_space_start:
  assumes "DecodeRune s = (r, w)" and "IsSpace r"
  shows "s \<noteq> [] \<and> RuneStart (hd s)"
  using assms(1)
proof (cases rule: DecodeRune_inv)
  case empty
  with assms(2) show ?thesis by simp
next
  case (invalid b0 rest)
  with assms(2) show ?thesis by simp
next
  case (ok pre rest)
  then have "pre \<noteq> []" by auto
  with ok show ?thesis by (cases pre) auto
qed

lemma DecodeRune_ascii_width:
  assumes "DecodeRune s = (r, w)" and "s \<noteq> []" and "uint (hd s) < 0x80"
  shows "w = 1"
  using assms by (cases s) (simp_all add: DR_ascii del: DecodeRune.simps)

lemma DecodeRune_take:
  assumes "\<not> IsSpace (fst (DecodeRune s))"
  shows "\<not> IsSpace (fst (DecodeRune (take k s)))"
proof
  assume sp: "IsSpace (fst (DecodeRune (take k s)))"
  obtain r w where d: "DecodeRune (take k s) = (r, w)"
    by (cases "DecodeRune (take k s)") auto
  with sp have r: "IsSpace r" "r \<noteq> RuneError" by auto
  have ne: "take k s \<noteq> []"
  proof
    assume "take k s = []"
    with d have "r = RuneError" by simp
    with r(2) show False by simp
  qed
  have w: "w \<le> length (take k s)"
    using DecodeRune_width [OF d ne] by simp
  then have "w \<le> k" by simp
  then have t: "take w (take k s) = take w s"
    by (simp add: min_absorb1)
  have "take w (take k s) @ drop w s = s"
    unfolding t by simp
  with DecodeRune_stable [OF d r(2), of "drop w s"] have "DecodeRune s = (r, w)"
    by simp
  with r(1) assms show False by simp
qed

lemma findStart_le: "findStart s lim st \<le> st"
proof (induction s lim st rule: findStart.induct)
  case (1 s lim start)
  show ?case
  proof (cases "start < lim \<or> RuneStart (s ! nat start)")
    case True
    then show ?thesis by (auto simp: findStart.simps [of s lim start])
  next
    case False
    then have "findStart s lim start = findStart s lim (start - 1)"
      by (simp add: findStart.simps [of s lim start])
    moreover have "findStart s lim (start - 1) \<le> start - 1"
      using 1 False by simp
    ultimately show ?thesis by simp
  qed
qed

lemma drop_last:
  assumes "s \<noteq> []"
  shows "drop (length s - Suc 0) s = [s ! (length s - Suc 0)]"
  using assms by (cases s rule: rev_cases) simp_all

lemma DecodeLastRune_char:
  assumes ne: "s \<noteq> []" and d: "DecodeLastRune s = (r, w)"
  shows "1 \<le> w \<and> w \<le> length s \<and> DecodeRune (drop (length s - w) s) = (r, w)"
proof -
  let ?b = "s ! (length s - Suc 0)"
  have n: "nat (int (length s) - 1) = length s - Suc 0" by simp
  have l: "drop (length s - Suc 0) s = [?b]" by (rule drop_last [OF ne])
  have len: "1 \<le> length s" using ne by (cases s) auto
  show ?thesis
  proof (cases "uint ?b < 0x80")
    case True
    with d ne have "r = uint ?b" "w = 1"
      by (auto simp: DecodeLastRune_def Let_def n)
    with True len show ?thesis
      by (simp add: l DR_ascii del: DecodeRune.simps)
  next
    case False
    define lim where "lim = (if int (length s) - 4 < 0 then 0 else int (length s) - 4)"
    define start0 where "start0 = findStart s lim (int (length s) - 2)"
    define start where "start = (if start0 < 0 then 0 else start0)"
    obtain r0 w0 where d0: "DecodeRune (drop (nat start) s) = (r0, w0)"
      by (cases "DecodeRune (drop (nat start) s)") auto
    have st: "0 \<le> start" "start \<le> int (length s) - 1"
      using findStart_le [of s lim "int (length s) - 2"] len
      by (auto simp: start_def start0_def)
    have "DecodeLastRune s = (case DecodeRune (drop (nat start) s) of (r, w) \<Rightarrow>
             if start + int w \<noteq> int (length s) then (RuneError, 1) else (r, w))"
      unfolding DecodeLastRune_def Let_def start_def start0_def lim_def
      using ne False by (simp add: n del: DecodeRune.simps)
    then have dl: "DecodeLastRune s = (if start + int w0 \<noteq> int (length s) then (RuneError, 1) else (r0, w0))"
      by (simp add: d0 del: DecodeRune.simps)
    show ?thesis
    proof (cases "start + int w0 \<noteq> int (length s)")
      case True
      with d dl have "r = RuneError" "w = 1" by simp_all
      with False len show ?thesis
        by (simp add: l DR_lone del: DecodeRune.simps)
    next
      case f: False
      with d dl have rw: "r = r0" "w = w0" by simp_all
      from f st have w0: "1 \<le> w0" "w0 \<le> length s" "length s - w0 = nat start"
        by linarith+
      with d0 rw show ?thesis by simp
    qed
  qed
qed

lemma decodeAll_Cons:
  assumes "DecodeRune (b # bs) = (r, w)"
  shows "decodeAll (b # bs) = r # decodeAll (drop (w - 1) bs)"
  using assms by (simp del: DecodeRune.simps)

lemma decodeAll_space_append:
  assumes d: "DecodeRune e = (r, w)" and l: "length e = w" and sp: "IsSpace r"
  shows "decodeAll (e @ rest) = r # decodeAll rest"
proof -
  from sp have r: "r \<noteq> RuneError" by auto
  from DecodeRune_space_start [OF d sp] obtain b bs where e: "e = b # bs"
    by (cases e) auto
  from DecodeRune_stable [OF d r, of rest] l have "DecodeRune (b # bs @ rest) = (r, w)"
    by (simp add: e del: DecodeRune.simps)
  from decodeAll_Cons [OF this] l show ?thesis
    by (simp add: e)
qed

lemma whiteSpaceOnly_Nil [simp]: "whiteSpaceOnly []"
  by (simp add: whiteSpaceOnly_def)

lemma whiteSpaceOnly_unit:
  assumes d: "DecodeRune e = (r, w)" and l: "length e = w" and sp: "IsSpace r"
  shows "whiteSpaceOnly (e @ rest) = whiteSpaceOnly rest"
  by (simp add: whiteSpaceOnly_def decodeAll_space_append [OF d l sp] sp)

lemma whiteSpaceOnly_append:
  "whiteSpaceOnly a \<Longrightarrow> whiteSpaceOnly b \<Longrightarrow> whiteSpaceOnly (a @ b)"
proof (induction a rule: decodeAll.induct)
  case 1
  then show ?case by simp
next
  case (2 c cs)
  obtain r w where d: "DecodeRune (c # cs) = (r, w)"
    by (cases "DecodeRune (c # cs)") auto
  from "2.prems"(1) d have sp: "IsSpace r" and rest: "whiteSpaceOnly (drop (w - 1) cs)"
    by (simp_all add: whiteSpaceOnly_def del: DecodeRune.simps)
  from sp have r: "r \<noteq> RuneError" by auto
  have w: "1 \<le> w" "w \<le> length (c # cs)"
    using DecodeRune_width [OF d] by simp_all
  have e: "DecodeRune (take w (c # cs)) = (r, w)"
    using DecodeRune_stable [OF d r, of "[]"] by simp
  have le: "length (take w (c # cs)) = w"
    using w by simp
  have split: "c # cs = take w (c # cs) @ drop (w - 1) cs"
    using w by (cases w) simp_all
  have "whiteSpaceOnly (drop (w - 1) cs @ b)"
    using "2.IH" [OF d [symmetric] rest "2.prems"(2)] by simp
  then have "whiteSpaceOnly (take w (c # cs) @ (drop (w - 1) cs @ b))"
    by (simp only: whiteSpaceOnly_unit [OF e le sp])
  then show ?case
    using split by (metis append.assoc)
qed

lemma TrimLeftFunc_split: "\<exists>pre. s = pre @ TrimLeftFunc s \<and> whiteSpaceOnly pre"
proof (induction s rule: TrimLeftFunc.induct)
  case 1
  then show ?case by simp
next
  case (2 b bs)
  obtain r w where d: "DecodeRune (b # bs) = (r, w)"
    by (cases "DecodeRune (b # bs)") auto
  show ?case
  proof (cases "IsSpace r")
    case False
    with d have "TrimLeftFunc (b # bs) = b # bs"
      by (simp del: DecodeRune.simps)
    then show ?thesis
      by (intro exI [of _ "[]"]) simp
  next
    case True
    then have r: "r \<noteq> RuneError" by auto
    from d True have t: "TrimLeftFunc (b # bs) = TrimLeftFunc (drop (w - 1) bs)"
      by (simp del: DecodeRune.simps)
    from "2.IH" [OF d [symmetric] True] obtain pre where
      p: "drop (w - 1) bs = pre @ TrimLeftFunc (drop (w - 1) bs)" "whiteSpaceOnly pre"
      by auto
    have w: "1 \<le> w" "w \<le> length (b # bs)"
      using DecodeRune_width [OF d] by simp_all
    have e: "DecodeRune (take w (b # bs)) = (r, w)"
      using DecodeRune_stable [OF d r, of "[]"] by simp
    have le: "length (take w (b # bs)) = w"
      using w by simp
    have split: "b # bs = take w (b # bs) @ drop (w - 1) bs"
      using w by (cases w) simp_all
    have "whiteSpaceOnly (take w (b # bs) @ pre)"
      using p(2) by (simp only: whiteSpaceOnly_unit [OF e le True])
    moreover have "b # bs = (take w (b # bs) @ pre) @ TrimLeftFunc (b # bs)"
      using split p(1) t by (metis append.assoc)
    ultimately show ?thesis by blast
  qed
qed

lemma TrimLeftFunc_start: "\<not> startsWithSpace (TrimLeftFunc s)"
proof (induction s rule: TrimLeftFunc.induct)
  case 1
  then show ?case by (simp add: startsWithSpace_def)
next
  case (2 b bs)
  obtain r w where d: "DecodeRune (b # bs) = (r, w)"
    by (cases "DecodeRune (b # bs)") auto
  show ?case
  proof (cases "IsSpace r")
    case False
    with d show ?thesis
      by (simp add: startsWithSpace_def del: DecodeRune.simps)
  next
    case True
    with d "2.IH" [OF d [symmetric] True] show ?thesis
      by (simp del: DecodeRune.simps)
  qed
qed

lemma TrimLeftFunc_id: "\<not> startsWithSpace s \<Longrightarrow> TrimLeftFunc s = s"
  by (cases s) (auto simp: startsWithSpace_def split: prod.splits simp del: DecodeRune.simps)

lemma not_endsWithSpace_Nil [simp]: "\<not> endsWithSpace []"
  by (simp add: endsWithSpace_def DecodeLastRune_def)

lemma lastIndexFunc_char:
  "\<exists>t suf. s = t @ suf \<and> whiteSpaceOnly suf \<and> (suf = [] \<or> RuneStart (hd suf))
     \<and> \<not> endsWithSpace t
     \<and> lastIndexFunc s = (if t = [] then - 1 else int (length t) - int (snd (DecodeLastRune t)))"
proof (induction s rule: lastIndexFunc.induct)
  case (1 s)
  show ?case
  proof (cases "s = []")
    case True
    then show ?thesis
      by (intro exI [of _ "[]"]) (simp add: lastIndexFunc.simps [of "[]"])
  next
    case ne: False
    obtain r w where d: "DecodeLastRune s = (r, w)"
      by (cases "DecodeLastRune s") auto
    note ch = DecodeLastRune_char [OF ne d]
    show ?thesis
    proof (cases "IsSpace r")
      case False
      with ne d have "lastIndexFunc s = int (length s) - int w"
        by (simp add: lastIndexFunc.simps [of s])
      with ne d False show ?thesis
        by (intro exI [of _ s] exI [of _ "[]"]) (simp add: endsWithSpace_def)
    next
      case True
      let ?s' = "take (length s - w) s"
      let ?e = "drop (length s - w) s"
      from ne d True have li: "lastIndexFunc s = lastIndexFunc ?s'"
        by (simp add: lastIndexFunc.simps [of s])
      from "1.IH" [OF ne d [symmetric] True] obtain t suf where
        p: "?s' = t @ suf" "whiteSpaceOnly suf" "suf = [] \<or> RuneStart (hd suf)"
          "\<not> endsWithSpace t"
          "lastIndexFunc ?s' = (if t = [] then - 1 else int (length t) - int (snd (DecodeLastRune t)))"
        by blast
      have de: "DecodeRune ?e = (r, w)" and le: "length ?e = w"
        using ch by simp_all
      have we: "whiteSpaceOnly ?e"
        using whiteSpaceOnly_unit [OF de le True, of "[]"] by simp
      have st: "?e \<noteq> [] \<and> RuneStart (hd ?e)"
        by (rule DecodeRune_space_start [OF de True])
      have "s = ?s' @ ?e" by simp
      then have s: "s = t @ (suf @ ?e)"
        using p(1) by (metis append.assoc)
      have "suf @ ?e = [] \<or> RuneStart (hd (suf @ ?e))"
        using p(3) st by (cases suf) auto
      with s p(2,4,5) we li show ?thesis
        by (intro exI [of _ t] exI [of _ "suf @ ?e"]) (simp add: whiteSpaceOnly_append)
    qed
  qed
qed

lemma TrimRightFunc_from:
  assumes s: "s = t @ suf" and st: "suf = [] \<or> RuneStart (hd suf)"
    and li: "lastIndexFunc s = (if t = [] then - 1 else int (length t) - int (snd (DecodeLastRune t)))"
  shows "TrimRightFunc s = t"
proof (cases "t = []")
  case True
  with li show ?thesis
    by (simp add: TrimRightFunc_def)
next
  case ne: False
  obtain r w where d: "DecodeLastRune t = (r, w)"
    by (cases "DecodeLastRune t") auto
  note ch = DecodeLastRune_char [OF ne d]
  let ?i = "length t - w"
  let ?e = "drop ?i t"
  have i: "lastIndexFunc s = int ?i"
    using li ne d ch by simp
  have lt: "?i < length t"
    using ch ne by (cases t) auto
  have le: "length ?e = w" "?e \<noteq> []"
    using ch by auto
  have nth: "s ! ?i = hd ?e"
    using lt by (simp add: s nth_append hd_drop_conv_nth)
  have dr: "drop ?i s = ?e @ suf"
    using lt by (simp add: s)
  have tk: "take (?i + w) s = t"
    using ch by (simp add: s)
  show ?thesis
  proof (cases "0x80 \<le> uint (s ! ?i)")
    case True
    have "DecodeRune (?e @ suf) = (r, w)"
      using DecodeRune_ext [OF _ le(1) _ st] ch by blast
    with True i dr tk show ?thesis
      by (simp add: TrimRightFunc_def Let_def del: DecodeRune.simps)
  next
    case False
    then have "uint (hd ?e) < 0x80"
      using nth by simp
    with ch le(2) have "w = 1"
      using DecodeRune_ascii_width by blast
    with False i tk show ?thesis
      by (simp add: TrimRightFunc_def Let_def nat_add_distrib)
  qed
qed

lemma TrimRightFunc_char:
  "\<exists>suf. s = TrimRightFunc s @ suf \<and> whiteSpaceOnly suf \<and> \<not> endsWithSpace (TrimRightFunc s)"
proof -
  from lastIndexFunc_char [of s] obtain t suf where
    p: "s = t @ suf" "whiteSpaceOnly suf" "suf = [] \<or> RuneStart (hd suf)" "\<not> endsWithSpace t"
      "lastIndexFunc s = (if t = [] then - 1 else int (length t) - int (snd (DecodeLastRune t)))"
    by blast
  have "TrimRightFunc s = t"
    by (rule TrimRightFunc_from [OF p(1,3,5)])
  with p show ?thesis by auto
qed

lemma TrimRightFunc_id:
  assumes "\<not> endsWithSpace s"
  shows "TrimRightFunc s = s"
proof -
  have "lastIndexFunc s = (if s = [] then - 1 else int (length s) - int (snd (DecodeLastRune s)))"
    using assms
    by (cases "DecodeLastRune s") (simp add: lastIndexFunc.simps [of s] endsWithSpace_def)
  then show ?thesis
    by (intro TrimRightFunc_from [of s s "[]"]) simp_all
qed

lemma DecodeLastRune_ascii:
  assumes "s \<noteq> []" and "uint (last s) < 0x80"
  shows "DecodeLastRune s = (uint (last s), 1)"
proof -
  have n: "nat (int (length s) - 1) = length s - Suc 0" by simp
  have "s ! (length s - Suc 0) = last s"
    using assms(1) by (simp add: last_conv_nth)
  with assms show ?thesis
    unfolding DecodeLastRune_def Let_def n by simp
qed

lemma trimSpaceStop_eq: "trimSpaceStop s = TrimRightFunc s"
proof (induction s rule: trimSpaceStop.induct)
  case (1 s)
  show ?case
  proof (cases "s = []")
    case True
    then show ?thesis
      by (simp add: trimSpaceStop.simps [of "[]"] TrimRightFunc_id)
  next
    case ne: False
    show ?thesis
    proof (cases "0x80 \<le> uint (last s)")
      case True
      with ne show ?thesis
        by (simp add: trimSpaceStop.simps [of s])
    next
      case asc: False
      then have d: "DecodeLastRune s = (uint (last s), 1)"
        using ne by (simp add: DecodeLastRune_ascii)
      have sp: "IsSpace (uint (last s)) = asciiSpace (last s)"
        using asc by (simp add: IsSpace_ascii)
      show ?thesis
      proof (cases "asciiSpace (last s)")
        case False
        with sp d have "\<not> endsWithSpace s"
          by (simp add: endsWithSpace_def)
        with ne asc False show ?thesis
          by (simp add: trimSpaceStop.simps [of s] TrimRightFunc_id)
      next
        case True
        have ih: "trimSpaceStop (butlast s) = TrimRightFunc (butlast s)"
          using "1.IH" ne asc True by simp
        from lastIndexFunc_char [of "butlast s"] obtain t suf where
          p: "butlast s = t @ suf" "whiteSpaceOnly suf" "suf = [] \<or> RuneStart (hd suf)"
            "lastIndexFunc (butlast s)
               = (if t = [] then - 1 else int (length t) - int (snd (DecodeLastRune t)))"
          by blast
        have li: "lastIndexFunc s = lastIndexFunc (butlast s)"
          using ne d sp True by (simp add: lastIndexFunc.simps [of s] butlast_conv_take)
        have s: "s = t @ (suf @ [last s])"
          using ne p(1) by (metis append.assoc append_butlast_last_id)
        have st: "suf @ [last s] = [] \<or> RuneStart (hd (suf @ [last s]))"
          using p(3) asc by (cases suf) (auto simp: RuneStart_def)
        have "TrimRightFunc s = t"
          using TrimRightFunc_from [OF s st] li p(4) by simp
        moreover have "TrimRightFunc (butlast s) = t"
          by (rule TrimRightFunc_from [OF p(1,3,4)])
        ultimately show ?thesis
          using ne asc True ih by (simp add: trimSpaceStop.simps [of s])
      qed
    qed
  qed
qed

lemma TrimSpace_eq: "TrimSpace s = TrimFunc s"
proof (induction s)
  case Nil
  then show ?case by (simp add: trimSpaceStop_eq TrimFunc_def)
next
  case (Cons c cs)
  show ?case
  proof (cases "0x80 \<le> uint c")
    case True
    then show ?thesis by simp
  next
    case False
    then have d: "DecodeRune (c # cs) = (uint c, 1)"
      by (simp add: DR_ascii del: DecodeRune.simps)
    have sp: "IsSpace (uint c) = asciiSpace c"
      using False by (simp add: IsSpace_ascii)
    show ?thesis
      using False d sp Cons.IH
      by (simp add: trimSpaceStop_eq TrimFunc_def del: DecodeRune.simps)
  qed
qed

section \<open>The conversions on all inputs\<close>

lemma strings_Map_ascii:
  assumes "isASCII s" and "\<And>c. uint c < 0x80 \<Longrightarrow> f (uint c) = uint (g c) \<and> uint (g c) < 0x80"
  shows "strings_Map f s = map g s"
  using assms(1)
proof (induction s)
  case Nil
  then show ?case by (simp add: strings_Map_def)
next
  case (Cons c cs)
  then have c: "uint c < 0x80" and cs: "isASCII cs"
    by (simp_all add: isASCII_def)
  have d: "decodeAll (c # cs) = uint c # decodeAll cs"
    using c by (simp add: DR_ascii del: DecodeRune.simps)
  have e: "EncodeRune (f (uint c)) = [g c]"
    using assms(2) [OF c] EncodeRune_ascii [of "g c"] by simp
  have p: "0 \<le> f (uint c)"
    using assms(2) [OF c] by simp
  have "strings_Map f (c # cs) = g c # strings_Map f cs"
    unfolding strings_Map_def d using e p by (simp add: Let_def)
  with Cons.IH [OF cs] show ?case by simp
qed

lemma ToUpper_eq_Map: "strings_ToUpper tbl s = strings_Map (unicode_ToUpper tbl) s"
proof (cases "isASCII s")
  case True
  have "strings_Map (unicode_ToUpper tbl) s = map upByte s"
    using True
    by (rule strings_Map_ascii)
       (auto simp: unicode_ToUpper_def upByte_def isLowerByte_def uint_upByte)
  with True show ?thesis by (simp add: ToUpper_ascii)
next
  case False
  then show ?thesis by (simp add: strings_ToUpper_def)
qed

lemma ToLower_eq_Map: "strings_ToLower tbl s = strings_Map (unicode_ToLower tbl) s"
proof (cases "isASCII s")
  case True
  have "strings_Map (unicode_ToLower tbl) s = map lowByte s"
    using True
    by (rule strings_Map_ascii)
       (auto simp: unicode_ToLower_def lowByte_def isUpperByte_def uint_lowByte)
  with True show ?thesis by (simp add: ToLower_ascii)
next
  case False
  then show ?thesis by (simp add: strings_ToLower_def)
qed

lemma TrimSpace_id:
  assumes "\<not> startsWithSpace x" and "\<not> endsWithSpace x"
  shows "TrimSpace x = x"
  using assms by (simp add: TrimSpace_eq TrimFunc_def TrimLeftFunc_id TrimRightFunc_id)

lemma TrimSpace_char:
  "(\<exists>pre suf. s = pre @ TrimSpace s @ suf \<and> whiteSpaceOnly pre \<and> whiteSpaceOnly suf)
     \<and> \<not> startsWithSpace (TrimSpace s) \<and> \<not> endsWithSpace (TrimSpace s)"
proof -
  let ?u = "TrimLeftFunc s"
  let ?t = "TrimRightFunc ?u"
  from TrimLeftFunc_split [of s] obtain pre where pre: "s = pre @ ?u" "whiteSpaceOnly pre"
    by blast
  from TrimRightFunc_char [of ?u] obtain suf where
    suf: "?u = ?t @ suf" "whiteSpaceOnly suf" "\<not> endsWithSpace ?t"
    by blast
  have "?t = take (length ?t) ?u"
    using suf(1) by (metis append_eq_conv_conj)
  then have "\<not> startsWithSpace ?t"
    using DecodeRune_take [of ?u "length ?t"] TrimLeftFunc_start [of s]
    by (simp add: startsWithSpace_def del: DecodeRune.simps)
  moreover have "s = pre @ ?t @ suf"
    using pre(1) suf(1) by simp
  ultimately show ?thesis
    using pre(2) suf(2,3) unfolding TrimSpace_eq TrimFunc_def by blast
qed

lemma caseMapOK_latin1_upper: "caseMapOK (unicode_ToUpper (fst latin1))"
  by (auto simp: caseMapOK_def unicode_ToUpper_def latin1_def validRune_def)

lemma caseMapOK_latin1_lower: "caseMapOK (unicode_ToLower (snd latin1))"
  by (auto simp: caseMapOK_def unicode_ToLower_def latin1_def validRune_def)

text \<open>
  Claim C3.  \<^verbatim>\<open>trimSpaces\<close> gives an input of length 0, 1 or 2 back.  On a longer input
  the result is the input without a prefix and a suffix that are white space only;
  the result neither starts nor ends with white space, and what lies between is kept
  as it is.  The input \<^verbatim>\<open>"  a"\<close> of length 3 gives \<^verbatim>\<open>"a"\<close>.
\<close>

theorem C3_trimSpaces_boundary:
  "(length data \<le> 2 \<longrightarrow> trimSpaces data = data)
   \<and> (2 < length data \<longrightarrow>
        (\<exists>pre suf. data = pre @ trimSpaces data @ suf \<and> whiteSpaceOnly pre \<and> whiteSpaceOnly suf)
        \<and> \<not> startsWithSpace (trimSpaces data) \<and> \<not> endsWithSpace (trimSpaces data))
   \<and> trimSpaces (bytes ''  a'') = bytes ''a''"
proof -
  have "trimSpaces (bytes ''  a'') = bytes ''a''"
    by code_simp
  then show ?thesis
    using TrimSpace_char [of data] by (simp add: trimSpaces_def)
qed

text \<open>A two-byte input with a trailing space is kept; a longer one is trimmed on both sides.\<close>

theorem C3_trimSpaces_boundary_witness:
  "trimSpaces (bytes ''a '') = bytes ''a ''
   \<and> (\<exists>pre suf. bytes '' a b  '' = pre @ trimSpaces (bytes '' a b  '') @ suf
         \<and> whiteSpaceOnly pre \<and> whiteSpaceOnly suf)
   \<and> trimSpaces (bytes '' a b  '') = bytes ''a b''"
proof -
  have a: "length (bytes ''a '') \<le> 2" by (simp add: bytes_def)
  have b: "2 < length (bytes '' a b  '')" by (simp add: bytes_def)
  have c: "trimSpaces (bytes '' a b  '') = bytes ''a b''" by code_simp
  from C3_trimSpaces_boundary [of "bytes ''a ''"] a
  have 1: "trimSpaces (bytes ''a '') = bytes ''a ''" by blast
  from C3_trimSpaces_boundary [of "bytes '' a b  ''"] b
  have 2: "\<exists>pre suf. bytes '' a b  '' = pre @ trimSpaces (bytes '' a b  '') @ suf
         \<and> whiteSpaceOnly pre \<and> whiteSpaceOnly suf" by blast
  from 1 2 c show ?thesis by blast
qed

text \<open>
  Claim C8.  \<^verbatim>\<open>upperCase\<close> applied twice is \<^verbatim>\<open>upperCase\<close> applied once, on every input,
  valid UTF-8 or not, and so is \<^verbatim>\<open>lowerCase\<close>; this rests on the case tables of the
  library, which are not part of the program: a mapped rune is mapped to itself and
  is a scalar value.  \<^verbatim>\<open>trimSpaces\<close> gives back an input that neither starts nor ends
  with white space, and applied twice it is \<^verbatim>\<open>trimSpaces\<close> applied once.
\<close>

theorem C8_idempotent:
  assumes "caseMapOK (unicode_ToUpper (fst T))" and "caseMapOK (unicode_ToLower (snd T))"
  shows "upperCase T (upperCase T x) = upperCase T x
     \<and> lowerCase T (lowerCase T x) = lowerCase T x
     \<and> (\<not> startsWithSpace x \<and> \<not> endsWithSpace x \<longrightarrow> trimSpaces x = x)
     \<and> trimSpaces (trimSpaces x) = trimSpaces x"
proof -
  have u: "upperCase T (upperCase T x) = upperCase T x"
    by (simp add: upperCase_def ToUpper_eq_Map strings_Map_idem [OF assms(1)])
  have l: "lowerCase T (lowerCase T x) = lowerCase T x"
    by (simp add: lowerCase_def ToLower_eq_Map strings_Map_idem [OF assms(2)])
  have t: "\<not> startsWithSpace x \<and> \<not> endsWithSpace x \<longrightarrow> trimSpaces x = x"
    by (simp add: trimSpaces_def TrimSpace_id)
  have "TrimSpace (TrimSpace x) = TrimSpace x"
    using TrimSpace_char [of x] by (simp add: TrimSpace_id)
  then have i: "trimSpaces (trimSpaces x) = trimSpaces x"
    by (simp add: trimSpaces_def)
  from u l t i show ?thesis by blast
qed

text \<open>
  With the letters of Latin-1 as tables: \<^verbatim>\<open>h\<close>, \<^verbatim>\<open>e\<close> with acute accent (two bytes) and
  \<^verbatim>\<open>!\<close>.
\<close>

theorem C8_idempotent_witness:
  "upperCase latin1 (upperCase latin1 [0x68, 0xC3, 0xA9, 0x21]) = [0x48, 0xC3, 0x89, 0x21]
   \<and> lowerCase latin1 (lowerCase latin1 [0x48, 0xC3, 0x89, 0x21]) = [0x68, 0xC3, 0xA9, 0x21]
   \<and> trimSpaces (bytes ''a b c'') = bytes ''a b c''
   \<and> trimSpaces (trimSpaces (bytes '' a b c '')) = bytes ''a b c''"
proof -
  have u: "upperCase latin1 [0x68, 0xC3, 0xA9, 0x21] = [0x48, 0xC3, 0x89, 0x21]"
    by code_simp
  have l: "lowerCase latin1 [0x48, 0xC3, 0x89, 0x21] = [0x68, 0xC3, 0xA9, 0x21]"
    by code_simp
  have s: "\<not> startsWithSpace (bytes ''a b c'') \<and> \<not> endsWithSpace (bytes ''a b c'')"
    by code_simp
  have t: "trimSpaces (bytes '' a b c '') = bytes ''a b c''"
    by code_simp
  note c8 = C8_idempotent [OF caseMapOK_latin1_upper caseMapOK_latin1_lower]
  from c8 [of "[0x68, 0xC3, 0xA9, 0x21]"] u
  have 1: "upperCase latin1 (upperCase latin1 [0x68, 0xC3, 0xA9, 0x21]) = [0x48, 0xC3, 0x89, 0x21]"
    by simp
  from c8 [of "[0x48, 0xC3, 0x89, 0x21]"] l
  have 2: "lowerCase latin1 (lowerCase latin1 [0x48, 0xC3, 0x89, 0x21]) = [0x68, 0xC3, 0xA9, 0x21]"
    by simp
  from c8 [of "bytes ''a b c''"] s
  have 3: "trimSpaces (bytes ''a b c'') = bytes ''a b c''"
    by blast
  from c8 [of "bytes '' a b c ''"] t
  have 4: "trimSpaces (trimSpaces (bytes '' a b c '')) = bytes ''a b c''"
    by simp
  from 1 2 3 4 show ?thesis by blast
qed

end
